theory Spec2Isabelle
  imports Main "HOL-Library.Word"
begin

section \<open>Venus queue synchronisation (vkr\_queue.c)\<close>

text \<open>
  The embedding follows \<^verbatim>\<open>src/venus/vkr_queue.c\<close>. Objects that the C code reaches
  through pointers live in explicit stores: \<open>syncs\<close> holds every \<^verbatim>\<open>struct vkr_queue_sync\<close>
  (\<open>sync_live\<close> says which addresses \<^verbatim>\<open>malloc\<close> has handed out and \<^verbatim>\<open>free\<close> has not
  taken back), \<open>queue_mem\<close> every \<^verbatim>\<open>struct vkr_queue\<close>; the intrusive lists
  (\<^verbatim>\<open>dev->free_syncs\<close>, \<^verbatim>\<open>queue->pending_syncs\<close>, \<^verbatim>\<open>dev->queues\<close>) are lists of addresses.
  Calls that leave the file (the driver's entry points, the mutex and condition calls, the
  context's \<^verbatim>\<open>retire_fence\<close> callback, the object registry) are recorded in order in
  \<open>trace\<close>; what they return is an argument of the function that makes the call.
\<close>

subsection \<open>Data\<close>

type_synonym sync_ptr = nat
type_synonym queue_ptr = nat
type_synonym VkFence = nat
type_synonym VkQueue = nat
type_synonym vkr_object_id = "64 word"

text \<open>
  \<^verbatim>\<open>VkResult\<close>: the file compares results only with the three codes named here;
  every other code is \<open>VK_OTHER\<close> with its number.
\<close>

datatype VkResult = VK_SUCCESS | VK_TIMEOUT | VK_ERROR_DEVICE_LOST | VK_OTHER int

record vkr_queue_sync =
  fence :: VkFence
  flags :: "32 word"
  ring_idx :: "32 word"
  fence_id :: "64 word"
  device_lost :: bool

text \<open>
  Where the queue's worker thread stands: \<open>Blocked\<close> is not holding \<^verbatim>\<open>queue->mutex\<close>
  and not waiting on a fence (before its first \<^verbatim>\<open>mtx_lock\<close>, or asleep in \<^verbatim>\<open>cnd_wait\<close>);
  \<open>Waiting sync\<close> is between the \<^verbatim>\<open>mtx_unlock\<close> of line 168 and the \<^verbatim>\<open>mtx_lock\<close> of
  line 178 with the local \<^verbatim>\<open>sync\<close>; \<open>Returned\<close> is after the loop.
\<close>

datatype thread_pc = Blocked | Waiting sync_ptr | Returned

record vkr_queue =
  base_id :: vkr_object_id
  base_handle :: VkQueue
  queue_flags :: "32 word"
  family :: "32 word"
  index :: "32 word"
  pending_syncs :: "sync_ptr list"
  join :: bool
  queue_ring_idx :: "32 word"
  thread :: thread_pc

datatype mutex = Free_sync_mutex | Queue_mutex queue_ptr

datatype call =
    Mtx_lock mutex
  | Mtx_unlock mutex
  | Cnd_signal queue_ptr
  | CreateFence bool
  | ResetFences VkFence
  | QueueSubmit VkQueue VkFence
  | WaitForFences VkFence "64 word"
  | Retire_fence queue_ptr "32 word" "64 word"
  | Add_object queue_ptr vkr_object_id
  | Remove_object queue_ptr
  | Free_queue queue_ptr

text \<open>
  Where the thread that calls into one queue stands: \<open>Acquired sync\<close> is inside
  \<^verbatim>\<open>vkr_queue_sync_submit\<close> after \<^verbatim>\<open>vkr_device_alloc_queue_sync\<close> returned \<^verbatim>\<open>sync\<close>;
  \<open>Joining\<close> is inside \<^verbatim>\<open>thrd_join\<close>; \<open>Destroyed\<close> is after \<^verbatim>\<open>vkr_queue_destroy\<close>.
\<close>

datatype caller_pc = Idle | Acquired sync_ptr | Joining | Destroyed

record world =
  KHR_external_fence_fd :: bool
  syncs :: "sync_ptr \<Rightarrow> vkr_queue_sync"
  sync_live :: "sync_ptr \<Rightarrow> bool"
  sync_count :: nat
  free_syncs :: "sync_ptr list"
  queues :: "queue_ptr list"
  queue_mem :: "queue_ptr \<Rightarrow> vkr_queue"
  sync_queues :: "queue_ptr option list"
  decoder_fatal :: bool
  callers :: "queue_ptr \<Rightarrow> caller_pc"
  trace :: "call list"

definition emit :: "call list \<Rightarrow> world \<Rightarrow> world" where
  "emit cs s = s\<lparr>trace := trace s @ cs\<rparr>"

definition pend :: "world \<Rightarrow> queue_ptr \<Rightarrow> sync_ptr list" where
  "pend s queue = pending_syncs (queue_mem s queue)"

subsection \<open>The pool of synchronisation objects\<close>

text \<open>Lines 54 to 57 of \<^verbatim>\<open>vkr_device_alloc_queue_sync\<close>.\<close>

definition sync_init :: "sync_ptr \<Rightarrow> 32 word \<Rightarrow> 32 word \<Rightarrow> 64 word \<Rightarrow> world \<Rightarrow> world" where
  "sync_init sync fence_flags ring fid s =
     s\<lparr>syncs := (syncs s)(sync := (syncs s sync)
          \<lparr>flags := fence_flags, ring_idx := ring, fence_id := fid, device_lost := False\<rparr>)\<rparr>"

text \<open>
  \<^verbatim>\<open>malloc(sizeof(*sync))\<close> of line 27: \<open>malloc_ok\<close> says whether memory was returned.
  The memory is at the address \<open>sync_count\<close>, which no list holds and which then grows;
  the object is live from here on.
\<close>

definition malloc_sync :: "bool \<Rightarrow> world \<Rightarrow> sync_ptr option \<times> world" where
  "malloc_sync malloc_ok s =
     (if malloc_ok then
        (Some (sync_count s),
         s\<lparr>sync_count := Suc (sync_count s),
           sync_live := (sync_live s)(sync_count s := True)\<rparr>)
      else (None, s))"

text \<open>\<^verbatim>\<open>free(sync)\<close> of line 42.\<close>

definition free_sync :: "sync_ptr \<Rightarrow> world \<Rightarrow> world" where
  "free_sync sync s = s\<lparr>sync_live := (sync_live s)(sync := False)\<rparr>"

text \<open>
  \<^verbatim>\<open>vkr_device_alloc_queue_sync\<close>. \<open>create\<close> is what \<^verbatim>\<open>vkCreateFence\<close> returns
  (result and handle).
\<close>

definition vkr_device_alloc_queue_sync ::
  "32 word \<Rightarrow> 32 word \<Rightarrow> 64 word \<Rightarrow> bool \<Rightarrow> VkResult \<times> VkFence \<Rightarrow> world
     \<Rightarrow> sync_ptr option \<times> world" where
  "vkr_device_alloc_queue_sync fence_flags ring fid malloc_ok create s =
     (if free_syncs s = [] then
        (let s1 = emit [Mtx_lock Free_sync_mutex, Mtx_unlock Free_sync_mutex] s in
         case malloc_sync malloc_ok s1 of
           (None, s2) \<Rightarrow> (None, s2)
         | (Some sync, s2) \<Rightarrow>
             (let s3 = emit [CreateFence (KHR_external_fence_fd s2)] s2 in
              if fst create \<noteq> VK_SUCCESS then (None, free_sync sync s3)
              else
                (Some sync,
                 sync_init sync fence_flags ring fid
                   (s3\<lparr>syncs := (syncs s3)(sync := (syncs s3 sync)\<lparr>fence := snd create\<rparr>)\<rparr>))))
      else
        (let sync = hd (free_syncs s);
             s1 = emit [Mtx_lock Free_sync_mutex, Mtx_unlock Free_sync_mutex,
                        ResetFences (fence (syncs s sync))]
                    (s\<lparr>free_syncs := tl (free_syncs s)\<rparr>)
         in (Some sync, sync_init sync fence_flags ring fid s1)))"

definition vkr_device_free_queue_sync :: "sync_ptr \<Rightarrow> world \<Rightarrow> world" where
  "vkr_device_free_queue_sync sync s =
     emit [Mtx_lock Free_sync_mutex, Mtx_unlock Free_sync_mutex]
       (s\<lparr>free_syncs := free_syncs s @ [sync]\<rparr>)"

definition vkr_queue_sync_retire :: "queue_ptr \<Rightarrow> sync_ptr \<Rightarrow> world \<Rightarrow> world" where
  "vkr_queue_sync_retire queue sync s =
     vkr_device_free_queue_sync sync
       (emit [Retire_fence queue (ring_idx (syncs s sync)) (fence_id (syncs s sync))] s)"

subsection \<open>Submission\<close>

definition set_pending :: "queue_ptr \<Rightarrow> sync_ptr list \<Rightarrow> world \<Rightarrow> world" where
  "set_pending queue xs s =
     s\<lparr>queue_mem := (queue_mem s)(queue := (queue_mem s queue)\<lparr>pending_syncs := xs\<rparr>)\<rparr>"

text \<open>Lines 101 to 104: the tail insertion under the queue's mutex, and the signal.\<close>

definition enqueue_sync :: "queue_ptr \<Rightarrow> sync_ptr \<Rightarrow> world \<Rightarrow> world" where
  "enqueue_sync queue sync s =
     emit [Mtx_lock (Queue_mutex queue), Mtx_unlock (Queue_mutex queue), Cnd_signal queue]
       (set_pending queue (pend s queue @ [sync]) s)"

text \<open>Line 93.\<close>

definition mark_device_lost :: "sync_ptr \<Rightarrow> world \<Rightarrow> world" where
  "mark_device_lost sync s =
     s\<lparr>syncs := (syncs s)(sync := (syncs s sync)\<lparr>device_lost := True\<rparr>)\<rparr>"

text \<open>
  Lines 91 to 106 of \<^verbatim>\<open>vkr_queue_sync_submit\<close>: the fence-only \<^verbatim>\<open>vkQueueSubmit\<close>,
  whose result is \<open>result\<close>, and what follows it.
\<close>

definition submit_fence :: "queue_ptr \<Rightarrow> sync_ptr \<Rightarrow> VkResult \<Rightarrow> world \<Rightarrow> bool \<times> world" where
  "submit_fence queue sync result s =
     (let s1 = emit [QueueSubmit (base_handle (queue_mem s queue)) (fence (syncs s sync))] s in
      if result = VK_ERROR_DEVICE_LOST then
        (True, enqueue_sync queue sync (mark_device_lost sync s1))
      else if result \<noteq> VK_SUCCESS then
        (False, vkr_device_free_queue_sync sync s1)
      else
        (True, enqueue_sync queue sync s1))"

definition vkr_queue_sync_submit ::
  "queue_ptr \<Rightarrow> 32 word \<Rightarrow> 32 word \<Rightarrow> 64 word \<Rightarrow> bool \<Rightarrow> VkResult \<times> VkFence \<Rightarrow> VkResult
     \<Rightarrow> world \<Rightarrow> bool \<times> world" where
  "vkr_queue_sync_submit queue fl ring fid malloc_ok create result s =
     (case vkr_device_alloc_queue_sync fl ring fid malloc_ok create s of
        (None, s1) \<Rightarrow> (False, s1)
      | (Some sync, s1) \<Rightarrow> submit_fence queue sync result s1)"

subsection \<open>The retirement thread\<close>

definition ns_per_sec :: "64 word" where
  "ns_per_sec = 1000000000"

definition set_thread :: "queue_ptr \<Rightarrow> thread_pc \<Rightarrow> world \<Rightarrow> world" where
  "set_thread queue pc s =
     s\<lparr>queue_mem := (queue_mem s)(queue := (queue_mem s queue)\<lparr>thread := pc\<rparr>)\<rparr>"

text \<open>
  Lines 159 to 168, entered with the mutex held: sleep in \<^verbatim>\<open>cnd_wait\<close> (which gives the
  mutex up), leave the loop on \<^verbatim>\<open>join\<close>, or take the first entry of the list and unlock.
\<close>

definition thread_loop_head :: "queue_ptr \<Rightarrow> world \<Rightarrow> world" where
  "thread_loop_head queue s =
     (if pend s queue = [] \<and> \<not> join (queue_mem s queue) then
        set_thread queue Blocked (emit [Mtx_unlock (Queue_mutex queue)] s)
      else if join (queue_mem s queue) then
        set_thread queue Returned (emit [Mtx_unlock (Queue_mutex queue)] s)
      else
        set_thread queue (Waiting (hd (pend s queue))) (emit [Mtx_unlock (Queue_mutex queue)] s))"

text \<open>
  The thread takes the mutex (line 157, or on return from \<^verbatim>\<open>cnd_wait\<close>); it can leave
  \<^verbatim>\<open>cnd_wait\<close>'s loop only when the list is non-empty or \<^verbatim>\<open>join\<close> is set.
\<close>

definition thread_wake :: "queue_ptr \<Rightarrow> world \<Rightarrow> world option" where
  "thread_wake queue s =
     (if thread (queue_mem s queue) = Blocked
         \<and> (pend s queue \<noteq> [] \<or> join (queue_mem s queue))
      then Some (thread_loop_head queue (emit [Mtx_lock (Queue_mutex queue)] s))
      else None)"

text \<open>
  Lines 170 to 185 and the next pass over lines 159 to 168. \<open>wait_result\<close> is what
  \<^verbatim>\<open>vkWaitForFences\<close> returns if it is called.
\<close>

definition thread_wait :: "queue_ptr \<Rightarrow> VkResult \<Rightarrow> world \<Rightarrow> world option" where
  "thread_wait queue wait_result s =
     (case thread (queue_mem s queue) of
        Waiting sync \<Rightarrow>
          (let result = (if device_lost (syncs s sync) then VK_ERROR_DEVICE_LOST
                         else wait_result);
               s1 = (if device_lost (syncs s sync) then s
                     else emit [WaitForFences (fence (syncs s sync)) (ns_per_sec * 3)] s);
               s2 = emit [Mtx_lock (Queue_mutex queue)] s1
           in if result = VK_TIMEOUT then Some (thread_loop_head queue s2)
              else Some (thread_loop_head queue
                     (vkr_queue_sync_retire queue sync
                        (set_pending queue (remove1 sync (pend s2 queue)) s2))))
      | _ \<Rightarrow> None)"

subsection \<open>Destruction\<close>

text \<open>Lines 112 to 116 of \<^verbatim>\<open>vkr_queue_retire_all_syncs\<close>; \<^verbatim>\<open>thrd_join\<close> follows.\<close>

definition request_join :: "queue_ptr \<Rightarrow> world \<Rightarrow> world" where
  "request_join queue s =
     emit [Mtx_lock (Queue_mutex queue), Mtx_unlock (Queue_mutex queue), Cnd_signal queue]
       (s\<lparr>queue_mem := (queue_mem s)(queue := (queue_mem s queue)\<lparr>join := True\<rparr>)\<rparr>)"

text \<open>
  Lines 119 to 121: every entry of the list is retired, first to last. The loop does not
  unlink the entries, so the list head keeps its value.
\<close>

definition retire_pending :: "queue_ptr \<Rightarrow> world \<Rightarrow> world" where
  "retire_pending queue s =
     foldl (\<lambda>s' sync. vkr_queue_sync_retire queue sync s') s (pend s queue)"

text \<open>Lines 130 to 141 of \<^verbatim>\<open>vkr_queue_destroy\<close>.\<close>

definition destroy_tail :: "queue_ptr \<Rightarrow> world \<Rightarrow> world" where
  "destroy_tail queue s =
     (let s1 = s\<lparr>queues := remove1 queue (queues s)\<rparr>;
          r = queue_ring_idx (queue_mem s1 queue);
          s2 = (if r > 0 then s1\<lparr>sync_queues := (sync_queues s1)[unat r := None]\<rparr> else s1)
      in if base_id (queue_mem s2 queue) \<noteq> 0 then emit [Remove_object queue] s2
         else emit [Free_queue queue] s2)"

subsection \<open>Identity and ring binding\<close>

text \<open>
  Modelled from the spec: \<^verbatim>\<open>vkr_cs_decoder_set_fatal\<close> is not in this file; the spec calls
  it a one-way flag marking the command stream permanently invalid.
\<close>

definition vkr_cs_decoder_set_fatal :: "world \<Rightarrow> world" where
  "vkr_cs_decoder_set_fatal s = s\<lparr>decoder_fatal := True\<rparr>"

text \<open>
  \<^verbatim>\<open>vkr_queue_assign_object_id\<close>. \<open>valid\<close> is what \<^verbatim>\<open>vkr_context_validate_object_id\<close>
  returns when it is called.
\<close>

definition vkr_queue_assign_object_id :: "queue_ptr \<Rightarrow> vkr_object_id \<Rightarrow> bool \<Rightarrow> world \<Rightarrow> world" where
  "vkr_queue_assign_object_id queue ident valid s =
     (if base_id (queue_mem s queue) \<noteq> 0 then
        (if base_id (queue_mem s queue) \<noteq> ident then vkr_cs_decoder_set_fatal s else s)
      else if \<not> valid then s
      else emit [Add_object queue ident]
             (s\<lparr>queue_mem := (queue_mem s)(queue := (queue_mem s queue)\<lparr>base_id := ident\<rparr>)\<rparr>))"

definition vkr_device_lookup_queue ::
  "32 word \<Rightarrow> 32 word \<Rightarrow> 32 word \<Rightarrow> world \<Rightarrow> queue_ptr option" where
  "vkr_device_lookup_queue fl fam idx s =
     find (\<lambda>queue. queue_flags (queue_mem s queue) = fl
                   \<and> family (queue_mem s queue) = fam
                   \<and> index (queue_mem s queue) = idx) (queues s)"

text \<open>
  The decoded arguments of \<^verbatim>\<open>vkGetDeviceQueue2\<close>: \<open>timeline_ringIdx\<close> is the
  \<^verbatim>\<open>ringIdx\<close> of the structure that \<^verbatim>\<open>vkr_find_struct\<close> finds, if it finds one, and
  \<open>pQueue_id\<close> is what \<^verbatim>\<open>vkr_cs_handle_load_id\<close> reads.
\<close>

record vn_command_vkGetDeviceQueue2 =
  info_flags :: "32 word"
  queueFamilyIndex :: "32 word"
  queueIndex :: "32 word"
  timeline_ringIdx :: "32 word option"
  pQueue_id :: vkr_object_id

definition bind_ring :: "queue_ptr \<Rightarrow> 32 word \<Rightarrow> world \<Rightarrow> world" where
  "bind_ring queue r s =
     s\<lparr>queue_mem := (queue_mem s)(queue := (queue_mem s queue)\<lparr>queue_ring_idx := r\<rparr>),
       sync_queues := (sync_queues s)[unat r := Some queue]\<rparr>"

definition vkr_dispatch_vkGetDeviceQueue2 ::
  "vn_command_vkGetDeviceQueue2 \<Rightarrow> bool \<Rightarrow> world \<Rightarrow> world" where
  "vkr_dispatch_vkGetDeviceQueue2 args valid s =
     (case vkr_device_lookup_queue (info_flags args) (queueFamilyIndex args) (queueIndex args) s of
        None \<Rightarrow> vkr_cs_decoder_set_fatal s
      | Some queue \<Rightarrow>
          (case timeline_ringIdx args of
             Some r \<Rightarrow>
               if r = 0 \<or> unat r \<ge> length (sync_queues s) then vkr_cs_decoder_set_fatal s
               else if sync_queues s ! unat r \<noteq> None then vkr_cs_decoder_set_fatal s
               else vkr_queue_assign_object_id queue (pQueue_id args) valid (bind_ring queue r s)
           | None \<Rightarrow> vkr_queue_assign_object_id queue (pQueue_id args) valid s))"

definition vkr_dispatch_vkQueueWaitIdle :: "world \<Rightarrow> world" where
  "vkr_dispatch_vkQueueWaitIdle s = vkr_cs_decoder_set_fatal s"

subsection \<open>Interleaving\<close>

text \<open>
  One event is one stretch of one thread's code between two points where it can be
  overtaken: a critical section with the thread-local work around it. A step that the
  thread cannot take in the state (it is elsewhere, or asleep) is \<open>None\<close>.
\<close>

datatype event =
    Submit_acquire queue_ptr "32 word" "32 word" "64 word" bool "VkResult \<times> VkFence"
  | Submit_fence queue_ptr VkResult
  | Thread_wake queue_ptr
  | Thread_wait queue_ptr VkResult
  | Destroy_request queue_ptr
  | Destroy_complete queue_ptr

definition set_caller :: "queue_ptr \<Rightarrow> caller_pc \<Rightarrow> world \<Rightarrow> world" where
  "set_caller queue pc s = s\<lparr>callers := (callers s)(queue := pc)\<rparr>"

fun step :: "event \<Rightarrow> world \<Rightarrow> world option" where
  "step (Submit_acquire queue fl ring fid malloc_ok create) s =
     (if callers s queue = Idle then
        (case vkr_device_alloc_queue_sync fl ring fid malloc_ok create s of
           (None, s1) \<Rightarrow> Some s1
         | (Some sync, s1) \<Rightarrow> Some (set_caller queue (Acquired sync) s1))
      else None)"
| "step (Submit_fence queue result) s =
     (case callers s queue of
        Acquired sync \<Rightarrow> Some (set_caller queue Idle (snd (submit_fence queue sync result s)))
      | _ \<Rightarrow> None)"
| "step (Thread_wake queue) s = thread_wake queue s"
| "step (Thread_wait queue wait_result) s = thread_wait queue wait_result s"
| "step (Destroy_request queue) s =
     (if callers s queue = Idle then Some (set_caller queue Joining (request_join queue s))
      else None)"
| "step (Destroy_complete queue) s =
     (if callers s queue = Joining \<and> thread (queue_mem s queue) = Returned then
        Some (set_caller queue Destroyed (destroy_tail queue (retire_pending queue s)))
      else None)"

fun run :: "event list \<Rightarrow> world \<Rightarrow> world option" where
  "run [] s = Some s"
| "run (e # es) s = (case step e s of None \<Rightarrow> None | Some s1 \<Rightarrow> run es s1)"

section \<open>Ownership of the synchronisation objects\<close>

definition thr :: "world \<Rightarrow> queue_ptr \<Rightarrow> thread_pc" where
  "thr s queue = thread (queue_mem s queue)"

datatype owner = Pool | Registry queue_ptr | Caller queue_ptr

definition owns :: "world \<Rightarrow> owner \<Rightarrow> sync_ptr list" where
  "owns s ow = (case ow of
       Pool \<Rightarrow> free_syncs s
     | Registry q \<Rightarrow> (if callers s q = Destroyed then [] else pend s q)
     | Caller q \<Rightarrow> (case callers s q of Acquired a \<Rightarrow> [a] | _ \<Rightarrow> []))"

definition own_ok :: "(owner \<Rightarrow> sync_ptr list) \<Rightarrow> nat \<Rightarrow> bool" where
  "own_ok f n = ((\<forall>ow. distinct (f ow)) \<and> (\<forall>ow a. a \<in> set (f ow) \<longrightarrow> a < n)
      \<and> (\<forall>ow ow' a. ow \<noteq> ow' \<longrightarrow> a \<in> set (f ow) \<longrightarrow> a \<notin> set (f ow')))"

definition waiting_ok :: "world \<Rightarrow> bool" where
  "waiting_ok s = (\<forall>q. (callers s q = Destroyed \<longrightarrow> thr s q = Returned)
       \<and> (\<forall>a. thr s q = Waiting a \<longrightarrow> pend s q \<noteq> [] \<and> hd (pend s q) = a))"

definition inv :: "world \<Rightarrow> bool" where
  "inv s = (own_ok (owns s) (sync_count s) \<and> waiting_ok s)"

definition next_pc :: "world \<Rightarrow> queue_ptr \<Rightarrow> thread_pc" where
  "next_pc s q = (if join (queue_mem s q) then Returned
                  else if pend s q = [] then Blocked else Waiting (hd (pend s q)))"


subsection \<open>Completion callbacks seen from one queue\<close>

fun retired_by :: "queue_ptr \<Rightarrow> call list \<Rightarrow> (32 word \<times> 64 word) list" where
  "retired_by q [] = []"
| "retired_by q (Retire_fence q' r t # cs) =
     (if q' = q then (r, t) # retired_by q cs else retired_by q cs)"
| "retired_by q (_ # cs) = retired_by q cs"

definition sync_key :: "world \<Rightarrow> sync_ptr \<Rightarrow> 32 word \<times> 64 word" where
  "sync_key s a = (ring_idx (syncs s a), fence_id (syncs s a))"

definition outstanding :: "queue_ptr \<Rightarrow> world \<Rightarrow> (32 word \<times> 64 word) list" where
  "outstanding q s = (if callers s q = Destroyed then [] else map (sync_key s) (pend s q))"

definition accepted :: "VkResult \<Rightarrow> bool" where
  "accepted res = (res = VK_SUCCESS \<or> res = VK_ERROR_DEVICE_LOST)"

fun submitted ::
  "queue_ptr \<Rightarrow> (32 word \<times> 64 word) option \<Rightarrow> event list \<Rightarrow> (32 word \<times> 64 word) list" where
  "submitted q cur [] = []"
| "submitted q cur (Submit_acquire q' fl r t m c # es) =
     submitted q (if q' = q then Some (r, t) else cur) es"
| "submitted q cur (Submit_fence q' res # es) =
     (if q' = q
      then (if accepted res then (case cur of Some k \<Rightarrow> [k] | None \<Rightarrow> []) else [])
           @ submitted q None es
      else submitted q cur es)"
| "submitted q cur (_ # es) = submitted q cur es"

definition held_key :: "queue_ptr \<Rightarrow> (32 word \<times> 64 word) option \<Rightarrow> world \<Rightarrow> bool" where
  "held_key q cur s = (\<forall>a. callers s q = Acquired a \<longrightarrow> cur = Some (sync_key s a))"

fun cur_after ::
  "queue_ptr \<Rightarrow> (32 word \<times> 64 word) option \<Rightarrow> event \<Rightarrow> (32 word \<times> 64 word) option" where
  "cur_after q cur (Submit_acquire q' fl r t m c) = (if q' = q then Some (r, t) else cur)"
| "cur_after q cur (Submit_fence q' res) = (if q' = q then None else cur)"
| "cur_after q cur _ = cur"


subsection \<open>An object while it stays on a queue's list\<close>

definition in_flight :: "queue_ptr \<Rightarrow> sync_ptr \<Rightarrow> world \<Rightarrow> bool" where
  "in_flight q a s = (callers s q \<noteq> Destroyed \<and> a \<in> set (pend s q))"

fun run_keeping :: "(world \<Rightarrow> bool) \<Rightarrow> event list \<Rightarrow> world \<Rightarrow> world option" where
  "run_keeping P [] s = Some s"
| "run_keeping P (e # es) s =
     (case step e s of None \<Rightarrow> None
      | Some s1 \<Rightarrow> if P s1 then run_keeping P es s1 else None)"

subsection \<open>Destruction\<close>

fun is_acquire :: "event \<Rightarrow> bool" where
  "is_acquire (Submit_acquire q fl r t m c) = True"
| "is_acquire _ = False"

text \<open>The step of the queue's thread that is enabled once \<^verbatim>\<open>join\<close> is set.\<close>

definition thread_exit :: "queue_ptr \<Rightarrow> VkResult \<Rightarrow> world \<Rightarrow> event list" where
  "thread_exit q w s = (case thr s q of Blocked \<Rightarrow> [Thread_wake q]
                        | Waiting a \<Rightarrow> [Thread_wait q w] | Returned \<Rightarrow> [])"

subsection \<open>Submissions one after the other\<close>

text \<open>
  One cycle on a queue: a submission, then the thread's steps on it. \<open>run_cycles\<close> starts
  a cycle only when the object of the one before is off the queue's list.
\<close>

fun creates :: "call list \<Rightarrow> nat" where
  "creates [] = 0"
| "creates (CreateFence e # cs) = Suc (creates cs)"
| "creates (_ # cs) = creates cs"

record cycle =
  c_flags :: "32 word"
  c_ring :: "32 word"
  c_fence_id :: "64 word"
  c_malloc_ok :: bool
  c_create :: "VkResult \<times> VkFence"
  c_submit :: VkResult
  c_waits :: "VkResult list"

definition cycle_events :: "queue_ptr \<Rightarrow> cycle \<Rightarrow> event list" where
  "cycle_events q c =
     [Submit_acquire q (c_flags c) (c_ring c) (c_fence_id c) (c_malloc_ok c) (c_create c),
      Submit_fence q (c_submit c), Thread_wake q] @ map (Thread_wait q) (c_waits c)"

fun run_cycles :: "queue_ptr \<Rightarrow> cycle list \<Rightarrow> world \<Rightarrow> world option" where
  "run_cycles q [] s = Some s"
| "run_cycles q (c # cs) s =
     (case run (cycle_events q c) s of
        None \<Rightarrow> None
      | Some s1 \<Rightarrow> if pend s1 q = [] then run_cycles q cs s1 else None)"

definition steady_cycle :: "64 word \<Rightarrow> cycle" where
  "steady_cycle t = \<lparr>c_flags = 0, c_ring = 0, c_fence_id = t, c_malloc_ok = True,
     c_create = (VK_SUCCESS, 0), c_submit = VK_SUCCESS, c_waits = [VK_SUCCESS]\<rparr>"

definition quiet :: "queue_ptr \<Rightarrow> world \<Rightarrow> bool" where
  "quiet q s = (pend s q = [] \<and> thr s q = Blocked \<and> callers s q = Idle
                \<and> \<not> join (queue_mem s q))"

subsection \<open>States used in the examples\<close>

definition sync0 :: vkr_queue_sync where
  "sync0 = \<lparr>fence = 0, flags = 0, ring_idx = 0, fence_id = 0, device_lost = False\<rparr>"

definition queue0 :: vkr_queue where
  "queue0 = \<lparr>base_id = 0, base_handle = 0, queue_flags = 0, family = 0, index = 0,
     pending_syncs = [], join = False, queue_ring_idx = 0, thread = Blocked\<rparr>"

definition world0 :: world where
  "world0 = \<lparr>KHR_external_fence_fd = True, syncs = (\<lambda>_. sync0),
     sync_live = (\<lambda>_. False), sync_count = 0,
     free_syncs = [], queues = [], queue_mem = (\<lambda>_. queue0),
     sync_queues = [None, None, None, None], decoder_fatal = False,
     callers = (\<lambda>_. Idle), trace = []\<rparr>"

definition fifo_example :: "event list" where
  "fifo_example =
     [Submit_acquire 1 0 2 70 True (VK_SUCCESS, 5), Submit_fence 1 VK_SUCCESS,
      Submit_acquire 1 0 2 71 True (VK_SUCCESS, 6), Thread_wake 1,
      Submit_fence 1 VK_ERROR_DEVICE_LOST, Thread_wait 1 VK_TIMEOUT,
      Thread_wait 1 (VK_OTHER 1), Submit_acquire 1 0 3 72 False (VK_SUCCESS, 7),
      Submit_fence 1 (VK_OTHER (- 1)), Thread_wait 1 VK_TIMEOUT]"

definition world_id :: world where
  "world_id = world0\<lparr>queues := [1, 2],
     queue_mem := (\<lambda>_. queue0)(1 := queue0\<lparr>base_id := 7\<rparr>, 2 := queue0\<lparr>index := 1\<rparr>),
     sync_queues := [None, None, Some 1, None]\<rparr>"

definition args_bind :: "32 word \<Rightarrow> 32 word \<Rightarrow> vn_command_vkGetDeviceQueue2" where
  "args_bind idx r = \<lparr>info_flags = 0, queueFamilyIndex = 0, queueIndex = idx,
     timeline_ringIdx = Some r, pQueue_id = 9\<rparr>"


definition world_ring :: world where
  "world_ring = world0\<lparr>queues := [1],
     queue_mem := (\<lambda>_. queue0)(1 := queue0\<lparr>queue_ring_idx := 2\<rparr>),
     sync_queues := [None, None, Some 1, None]\<rparr>"

definition destroy_state :: world where
  "destroy_state =
     (case run [Submit_acquire 1 0 2 70 True (VK_SUCCESS, 5), Submit_fence 1 VK_SUCCESS,
                Submit_acquire 1 0 2 71 True (VK_SUCCESS, 6), Submit_fence 1 VK_SUCCESS,
                Thread_wake 1] world_ring
      of Some s \<Rightarrow> s | None \<Rightarrow> world_ring)"

definition reuse_cycles :: "cycle list" where
  "reuse_cycles =
     [\<lparr>c_flags = 0, c_ring = 2, c_fence_id = 70, c_malloc_ok = True,
       c_create = (VK_SUCCESS, 5), c_submit = VK_SUCCESS,
       c_waits = [VK_TIMEOUT, VK_TIMEOUT, VK_SUCCESS]\<rparr>,
      \<lparr>c_flags = 0, c_ring = 2, c_fence_id = 71, c_malloc_ok = False,
       c_create = (VK_OTHER (- 1), 0), c_submit = VK_ERROR_DEVICE_LOST,
       c_waits = [VK_TIMEOUT]\<rparr>,
      \<lparr>c_flags = 0, c_ring = 2, c_fence_id = 72, c_malloc_ok = True,
       c_create = (VK_SUCCESS, 6), c_submit = VK_SUCCESS,
       c_waits = [VK_OTHER (- 2)]\<rparr>]"

text \<open>
  A device with one queue; the queue is then named by two \<^verbatim>\<open>vkGetDeviceQueue2\<close>
  commands, the first with ring index 2 and the second with ring index 3.
\<close>

definition world_dev :: world where
  "world_dev = world0\<lparr>queues := [1]\<rparr>"

definition rebound_state :: world where
  "rebound_state =
     vkr_dispatch_vkGetDeviceQueue2 (args_bind 0 3) True
       (vkr_dispatch_vkGetDeviceQueue2 (args_bind 0 2) True world_dev)"

section \<open>Effects of the steps\<close>

text \<open>Effects of the primitive updates on the fields the invariant reads.\<close>

lemma emit_proj [simp]:
  "free_syncs (emit cs s) = free_syncs s" "sync_count (emit cs s) = sync_count s"
  "pend (emit cs s) = pend s" "callers (emit cs s) = callers s" "thr (emit cs s) = thr s"
  "syncs (emit cs s) = syncs s" "queue_mem (emit cs s) = queue_mem s"
  "trace (emit cs s) = trace s @ cs"
  by (simp_all add: emit_def pend_def thr_def fun_eq_iff)

lemma free_sync_proj [simp]:
  "free_syncs (free_sync a s) = free_syncs s" "sync_count (free_sync a s) = sync_count s"
  "pend (free_sync a s) = pend s" "callers (free_sync a s) = callers s"
  "thr (free_sync a s) = thr s" "syncs (free_sync a s) = syncs s"
  "queue_mem (free_sync a s) = queue_mem s" "trace (free_sync a s) = trace s"
  "sync_live (free_sync a s) = (sync_live s)(a := False)"
  by (simp_all add: free_sync_def pend_def thr_def fun_eq_iff)

lemma sync_init_proj [simp]:
  "free_syncs (sync_init a fl r t s) = free_syncs s"
  "sync_count (sync_init a fl r t s) = sync_count s"
  "pend (sync_init a fl r t s) = pend s" "callers (sync_init a fl r t s) = callers s"
  "thr (sync_init a fl r t s) = thr s" "queue_mem (sync_init a fl r t s) = queue_mem s"
  "trace (sync_init a fl r t s) = trace s"
  by (simp_all add: sync_init_def pend_def thr_def fun_eq_iff)

lemma free_proj [simp]:
  "free_syncs (vkr_device_free_queue_sync a s) = free_syncs s @ [a]"
  "sync_count (vkr_device_free_queue_sync a s) = sync_count s"
  "pend (vkr_device_free_queue_sync a s) = pend s"
  "callers (vkr_device_free_queue_sync a s) = callers s"
  "thr (vkr_device_free_queue_sync a s) = thr s"
  "syncs (vkr_device_free_queue_sync a s) = syncs s"
  "queue_mem (vkr_device_free_queue_sync a s) = queue_mem s"
  "trace (vkr_device_free_queue_sync a s)
     = trace s @ [Mtx_lock Free_sync_mutex, Mtx_unlock Free_sync_mutex]"
  by (simp_all add: vkr_device_free_queue_sync_def emit_def pend_def thr_def fun_eq_iff)

lemma retire_proj [simp]:
  "free_syncs (vkr_queue_sync_retire q a s) = free_syncs s @ [a]"
  "sync_count (vkr_queue_sync_retire q a s) = sync_count s"
  "pend (vkr_queue_sync_retire q a s) = pend s"
  "callers (vkr_queue_sync_retire q a s) = callers s"
  "thr (vkr_queue_sync_retire q a s) = thr s"
  "syncs (vkr_queue_sync_retire q a s) = syncs s"
  "queue_mem (vkr_queue_sync_retire q a s) = queue_mem s"
  "trace (vkr_queue_sync_retire q a s)
     = trace s @ [Retire_fence q (ring_idx (syncs s a)) (fence_id (syncs s a)),
                  Mtx_lock Free_sync_mutex, Mtx_unlock Free_sync_mutex]"
  by (simp_all add: vkr_queue_sync_retire_def)

lemma set_pending_proj [simp]:
  "free_syncs (set_pending q xs s) = free_syncs s"
  "sync_count (set_pending q xs s) = sync_count s"
  "pend (set_pending q xs s) = (pend s)(q := xs)"
  "callers (set_pending q xs s) = callers s"
  "thr (set_pending q xs s) = thr s"
  "syncs (set_pending q xs s) = syncs s"
  "trace (set_pending q xs s) = trace s"
  "join (queue_mem (set_pending q xs s) q') = join (queue_mem s q')"
  by (simp_all add: set_pending_def pend_def thr_def fun_eq_iff)

lemma set_thread_proj [simp]:
  "free_syncs (set_thread q pc s) = free_syncs s"
  "sync_count (set_thread q pc s) = sync_count s"
  "pend (set_thread q pc s) = pend s"
  "callers (set_thread q pc s) = callers s"
  "thr (set_thread q pc s) = (thr s)(q := pc)"
  "syncs (set_thread q pc s) = syncs s"
  "trace (set_thread q pc s) = trace s"
  "join (queue_mem (set_thread q pc s) q') = join (queue_mem s q')"
  by (simp_all add: set_thread_def pend_def thr_def fun_eq_iff)

lemma set_caller_proj [simp]:
  "free_syncs (set_caller q pc s) = free_syncs s"
  "sync_count (set_caller q pc s) = sync_count s"
  "pend (set_caller q pc s) = pend s"
  "callers (set_caller q pc s) = (callers s)(q := pc)"
  "thr (set_caller q pc s) = thr s"
  "syncs (set_caller q pc s) = syncs s"
  "queue_mem (set_caller q pc s) = queue_mem s"
  "trace (set_caller q pc s) = trace s"
  by (simp_all add: set_caller_def pend_def thr_def fun_eq_iff)

lemma enqueue_proj [simp]:
  "free_syncs (enqueue_sync q a s) = free_syncs s"
  "sync_count (enqueue_sync q a s) = sync_count s"
  "pend (enqueue_sync q a s) = (pend s)(q := pend s q @ [a])"
  "callers (enqueue_sync q a s) = callers s"
  "thr (enqueue_sync q a s) = thr s"
  "syncs (enqueue_sync q a s) = syncs s"
  "trace (enqueue_sync q a s) = trace s
     @ [Mtx_lock (Queue_mutex q), Mtx_unlock (Queue_mutex q), Cnd_signal q]"
  "join (queue_mem (enqueue_sync q a s) q') = join (queue_mem s q')"
  by (simp_all add: enqueue_sync_def)

lemma request_join_proj [simp]:
  "free_syncs (request_join q s) = free_syncs s"
  "sync_count (request_join q s) = sync_count s"
  "pend (request_join q s) = pend s"
  "callers (request_join q s) = callers s"
  "thr (request_join q s) = thr s"
  "syncs (request_join q s) = syncs s"
  "trace (request_join q s) = trace s
     @ [Mtx_lock (Queue_mutex q), Mtx_unlock (Queue_mutex q), Cnd_signal q]"
  "join (queue_mem (request_join q s) q') = (q' = q \<or> join (queue_mem s q'))"
  by (auto simp add: request_join_def emit_def pend_def thr_def fun_eq_iff)

lemma loop_head_proj [simp]:
  "free_syncs (thread_loop_head q s) = free_syncs s"
  "sync_count (thread_loop_head q s) = sync_count s"
  "pend (thread_loop_head q s) = pend s"
  "callers (thread_loop_head q s) = callers s"
  "thr (thread_loop_head q s) = (thr s)(q := next_pc s q)"
  "syncs (thread_loop_head q s) = syncs s"
  "trace (thread_loop_head q s) = trace s @ [Mtx_unlock (Queue_mutex q)]"
  "join (queue_mem (thread_loop_head q s) q') = join (queue_mem s q')"
  by (simp_all add: thread_loop_head_def next_pc_def)


lemma acquire_effect:
  assumes "step (Submit_acquire q fl r t m c) s = Some s'"
  shows "callers s q = Idle \<and> pend s' = pend s \<and> thr s' = thr s \<and>
     ((free_syncs s = [] \<and> free_syncs s' = [] \<and> sync_count s \<le> sync_count s'
         \<and> callers s' = callers s \<and> syncs s' = syncs s)
      \<or> (free_syncs s = [] \<and> free_syncs s' = [] \<and> sync_count s' = Suc (sync_count s)
         \<and> callers s' = (callers s)(q := Acquired (sync_count s))
         \<and> (\<forall>b. b \<noteq> sync_count s \<longrightarrow> syncs s' b = syncs s b)
         \<and> ring_idx (syncs s' (sync_count s)) = r \<and> fence_id (syncs s' (sync_count s)) = t)
      \<or> (\<exists>a rest. free_syncs s = a # rest \<and> free_syncs s' = rest
         \<and> sync_count s' = sync_count s
         \<and> callers s' = (callers s)(q := Acquired a)
         \<and> (\<forall>b. b \<noteq> a \<longrightarrow> syncs s' b = syncs s b)
         \<and> ring_idx (syncs s' a) = r \<and> fence_id (syncs s' a) = t))"
proof (cases "free_syncs s")
  case Nil
  with assms show ?thesis
    by (auto simp: vkr_device_alloc_queue_sync_def malloc_sync_def free_sync_def Let_def
          sync_init_def pend_def thr_def emit_def set_caller_def split: if_splits)
next
  case (Cons a rest)
  with assms show ?thesis
    by (auto simp: vkr_device_alloc_queue_sync_def malloc_sync_def free_sync_def Let_def
          sync_init_def pend_def thr_def emit_def set_caller_def split: if_splits)
qed

lemma own_ok_move:
  assumes "own_ok f n" "o1 \<noteq> o2" "a \<in> set (f o1)"
  shows "own_ok (f(o1 := remove1 a (f o1), o2 := f o2 @ [a])) n"
  using assms unfolding own_ok_def
  by (auto simp: in_set_remove1 dest: notin_set_remove1)

lemma own_ok_new:
  assumes "own_ok f n"
  shows "own_ok (f(ow := f ow @ [n])) (Suc n)"
  using assms unfolding own_ok_def
  by (auto simp: less_Suc_eq)

lemma own_ok_drain:
  assumes "own_ok f n" "o1 \<noteq> o2"
  shows "own_ok (f(o1 := [], o2 := f o2 @ f o1)) n"
  using assms unfolding own_ok_def
  by auto


lemma mark_proj [simp]:
  "free_syncs (mark_device_lost a s) = free_syncs s"
  "sync_count (mark_device_lost a s) = sync_count s"
  "pend (mark_device_lost a s) = pend s"
  "callers (mark_device_lost a s) = callers s"
  "thr (mark_device_lost a s) = thr s"
  "syncs (mark_device_lost a s) = (syncs s)(a := (syncs s a)\<lparr>device_lost := True\<rparr>)"
  "queue_mem (mark_device_lost a s) = queue_mem s"
  "trace (mark_device_lost a s) = trace s"
  by (simp_all add: mark_device_lost_def pend_def thr_def fun_eq_iff)

lemma submit_fence_effect:
  assumes "step (Submit_fence q res) s = Some s'"
  shows "\<exists>a. callers s q = Acquired a \<and> callers s' = (callers s)(q := Idle)
       \<and> thr s' = thr s \<and> sync_count s' = sync_count s
       \<and> (\<forall>b. ring_idx (syncs s' b) = ring_idx (syncs s b)
              \<and> fence_id (syncs s' b) = fence_id (syncs s b)
              \<and> (b \<noteq> a \<longrightarrow> syncs s' b = syncs s b))
       \<and> (if res = VK_SUCCESS \<or> res = VK_ERROR_DEVICE_LOST
           then free_syncs s' = free_syncs s \<and> pend s' = (pend s)(q := pend s q @ [a])
                \<and> device_lost (syncs s' a) = (res = VK_ERROR_DEVICE_LOST \<or> device_lost (syncs s a))
           else free_syncs s' = free_syncs s @ [a] \<and> pend s' = pend s)"
  using assms
  by (auto simp: submit_fence_def Let_def split: caller_pc.splits if_splits)

lemma thread_wake_effect:
  assumes "step (Thread_wake q) s = Some s'"
  shows "thr s q = Blocked \<and> (pend s q \<noteq> [] \<or> join (queue_mem s q))
       \<and> thr s' = (thr s)(q := next_pc s q) \<and> callers s' = callers s
       \<and> pend s' = pend s \<and> free_syncs s' = free_syncs s \<and> sync_count s' = sync_count s
       \<and> syncs s' = syncs s"
  using assms
  by (auto simp: thread_wake_def thr_def next_pc_def split: if_splits)

lemma thread_wait_effect:
  assumes "step (Thread_wait q w) s = Some s'"
  shows "\<exists>a. thr s q = Waiting a \<and> callers s' = callers s
       \<and> sync_count s' = sync_count s \<and> syncs s' = syncs s
       \<and> thr s' = (thr s)(q := next_pc s' q)
       \<and> (\<forall>q'. join (queue_mem s' q') = join (queue_mem s q'))
       \<and> (if \<not> device_lost (syncs s a) \<and> w = VK_TIMEOUT
           then free_syncs s' = free_syncs s \<and> pend s' = pend s
           else free_syncs s' = free_syncs s @ [a]
                \<and> pend s' = (pend s)(q := remove1 a (pend s q)))"
proof (cases "thread (queue_mem s q)")
  case (Waiting a)
  have t: "thr s q = Waiting a" using Waiting by (simp add: thr_def)
  show ?thesis
  proof (cases "\<not> device_lost (syncs s a) \<and> w = VK_TIMEOUT")
    case True
    with assms Waiting t show ?thesis
      by (clarsimp simp: thread_wait_def Let_def next_pc_def fun_eq_iff)
  next
    case False
    with assms Waiting t show ?thesis
      by (clarsimp simp: thread_wait_def Let_def next_pc_def fun_eq_iff split: if_splits)
  qed
qed (use assms in \<open>simp_all add: thread_wait_def\<close>)

lemma destroy_request_effect:
  assumes "step (Destroy_request q) s = Some s'"
  shows "callers s q = Idle \<and> callers s' = (callers s)(q := Joining)
       \<and> thr s' = thr s \<and> pend s' = pend s \<and> free_syncs s' = free_syncs s
       \<and> sync_count s' = sync_count s \<and> syncs s' = syncs s"
  using assms
  by (auto split: if_splits)

lemma foldl_retire_proj:
  "free_syncs (foldl (\<lambda>s' sync. vkr_queue_sync_retire q sync s') s xs) = free_syncs s @ xs
   \<and> sync_count (foldl (\<lambda>s' sync. vkr_queue_sync_retire q sync s') s xs) = sync_count s
   \<and> pend (foldl (\<lambda>s' sync. vkr_queue_sync_retire q sync s') s xs) = pend s
   \<and> callers (foldl (\<lambda>s' sync. vkr_queue_sync_retire q sync s') s xs) = callers s
   \<and> thr (foldl (\<lambda>s' sync. vkr_queue_sync_retire q sync s') s xs) = thr s
   \<and> syncs (foldl (\<lambda>s' sync. vkr_queue_sync_retire q sync s') s xs) = syncs s
   \<and> queue_mem (foldl (\<lambda>s' sync. vkr_queue_sync_retire q sync s') s xs) = queue_mem s"
  by (induction xs arbitrary: s) simp_all

lemma retire_pending_proj [simp]:
  "free_syncs (retire_pending q s) = free_syncs s @ pend s q"
  "sync_count (retire_pending q s) = sync_count s"
  "pend (retire_pending q s) = pend s"
  "callers (retire_pending q s) = callers s"
  "thr (retire_pending q s) = thr s"
  "syncs (retire_pending q s) = syncs s"
  "queue_mem (retire_pending q s) = queue_mem s"
  by (simp_all add: retire_pending_def foldl_retire_proj)

lemma destroy_tail_proj [simp]:
  "free_syncs (destroy_tail q s) = free_syncs s"
  "sync_count (destroy_tail q s) = sync_count s"
  "pend (destroy_tail q s) = pend s"
  "callers (destroy_tail q s) = callers s"
  "thr (destroy_tail q s) = thr s"
  "syncs (destroy_tail q s) = syncs s"
  "queue_mem (destroy_tail q s) = queue_mem s"
  by (simp_all add: destroy_tail_def Let_def emit_def pend_def thr_def fun_eq_iff)

lemma destroy_complete_effect:
  assumes "step (Destroy_complete q) s = Some s'"
  shows "callers s q = Joining \<and> thr s q = Returned
       \<and> callers s' = (callers s)(q := Destroyed)
       \<and> thr s' = thr s \<and> pend s' = pend s \<and> free_syncs s' = free_syncs s @ pend s q
       \<and> sync_count s' = sync_count s \<and> syncs s' = syncs s"
  using assms
  by (auto simp: thr_def split: if_splits)

lemma owns_same:
  assumes "free_syncs s' = free_syncs s" "pend s' = pend s"
    "\<And>q. callers s' q = callers s q
        \<or> (callers s' q \<notin> range Acquired \<union> {Destroyed}
            \<and> callers s q \<notin> range Acquired \<union> {Destroyed})"
  shows "owns s' = owns s"
proof
  fix ow show "owns s' ow = owns s ow"
  proof (cases ow)
    case Pool then show ?thesis using assms(1) by (simp add: owns_def)
  next
    case (Registry q) then show ?thesis using assms(2) assms(3) [of q]
      by (auto simp: owns_def)
  next
    case (Caller q) then show ?thesis using assms(3) [of q]
      by (auto simp: owns_def split: caller_pc.splits)
  qed
qed

lemma owns_acquire_fresh:
  assumes "callers s q = Idle" "pend s' = pend s" "free_syncs s' = free_syncs s"
    "callers s' = (callers s)(q := Acquired a)"
  shows "owns s' = (owns s)(Caller q := owns s (Caller q) @ [a])"
proof
  fix ow show "owns s' ow = ((owns s)(Caller q := owns s (Caller q) @ [a])) ow"
    using assms by (cases ow) (auto simp: owns_def)
qed

lemma owns_acquire_pop:
  assumes "callers s q = Idle" "pend s' = pend s" "free_syncs s = a # rest"
    "free_syncs s' = rest" "callers s' = (callers s)(q := Acquired a)"
  shows "owns s' = (owns s)(Pool := remove1 a (owns s Pool),
                            Caller q := owns s (Caller q) @ [a])"
proof
  fix ow
  show "owns s' ow = ((owns s)(Pool := remove1 a (owns s Pool),
                               Caller q := owns s (Caller q) @ [a])) ow"
    using assms by (cases ow) (auto simp: owns_def)
qed

lemma owns_enqueue:
  assumes "callers s q = Acquired a" "pend s' = (pend s)(q := pend s q @ [a])"
    "free_syncs s' = free_syncs s" "callers s' = (callers s)(q := Idle)"
  shows "owns s' = (owns s)(Caller q := remove1 a (owns s (Caller q)),
                            Registry q := owns s (Registry q) @ [a])"
proof
  fix ow
  show "owns s' ow = ((owns s)(Caller q := remove1 a (owns s (Caller q)),
                               Registry q := owns s (Registry q) @ [a])) ow"
    using assms by (cases ow) (auto simp: owns_def)
qed

lemma owns_release:
  assumes "callers s q = Acquired a" "pend s' = pend s"
    "free_syncs s' = free_syncs s @ [a]" "callers s' = (callers s)(q := Idle)"
  shows "owns s' = (owns s)(Caller q := remove1 a (owns s (Caller q)),
                            Pool := owns s Pool @ [a])"
proof
  fix ow
  show "owns s' ow = ((owns s)(Caller q := remove1 a (owns s (Caller q)),
                               Pool := owns s Pool @ [a])) ow"
    using assms by (cases ow) (auto simp: owns_def)
qed

lemma owns_retire:
  assumes "callers s q \<noteq> Destroyed" "pend s' = (pend s)(q := remove1 a (pend s q))"
    "free_syncs s' = free_syncs s @ [a]" "callers s' = callers s"
  shows "owns s' = (owns s)(Registry q := remove1 a (owns s (Registry q)),
                            Pool := owns s Pool @ [a])"
proof
  fix ow
  show "owns s' ow = ((owns s)(Registry q := remove1 a (owns s (Registry q)),
                               Pool := owns s Pool @ [a])) ow"
    using assms by (cases ow) (auto simp: owns_def)
qed

lemma owns_drain:
  assumes "callers s q = Joining" "pend s' = pend s"
    "free_syncs s' = free_syncs s @ pend s q" "callers s' = (callers s)(q := Destroyed)"
  shows "owns s' = (owns s)(Registry q := [], Pool := owns s Pool @ owns s (Registry q))"
proof
  fix ow
  show "owns s' ow = ((owns s)(Registry q := [],
                               Pool := owns s Pool @ owns s (Registry q))) ow"
    using assms by (cases ow) (auto simp: owns_def)
qed

section \<open>The invariant\<close>

lemma own_okD:
  assumes "own_ok f n"
  shows "distinct (f ow)" and "a \<in> set (f ow) \<Longrightarrow> a < n"
    and "ow \<noteq> ow' \<Longrightarrow> a \<in> set (f ow) \<Longrightarrow> a \<notin> set (f ow')"
  using assms unfolding own_ok_def by blast+

lemma own_ok_mono: "own_ok f n \<Longrightarrow> n \<le> m \<Longrightarrow> own_ok f m"
  unfolding own_ok_def by (meson less_le_trans)

lemma inv_acquire:
  assumes "inv s" "step (Submit_acquire q fl r t m c) s = Some s'"
  shows "inv s'"
proof -
  note e = acquire_effect [OF assms(2)]
  from e have idle: "callers s q = Idle" and p: "pend s' = pend s" and th: "thr s' = thr s"
    by simp_all
  from assms(1) have ok: "own_ok (owns s) (sync_count s)" and w: "waiting_ok s"
    by (simp_all add: inv_def)
  from e consider
      (fail) "free_syncs s' = free_syncs s" "sync_count s \<le> sync_count s'"
             "callers s' = callers s"
    | (fresh) "free_syncs s' = free_syncs s" "sync_count s' = Suc (sync_count s)"
             "callers s' = (callers s)(q := Acquired (sync_count s))"
    | (pop) a rest where "free_syncs s = a # rest" "free_syncs s' = rest"
             "sync_count s' = sync_count s" "callers s' = (callers s)(q := Acquired a)"
    by auto
  then show ?thesis
  proof cases
    case fail
    then have "owns s' = owns s" using p by (intro owns_same) simp_all
    with own_ok_mono [OF ok fail(2)] w fail p th show ?thesis
      by (simp add: inv_def waiting_ok_def)
  next
    case fresh
    have "owns s' = (owns s)(Caller q := owns s (Caller q) @ [sync_count s])"
      using idle p fresh by (intro owns_acquire_fresh) simp_all
    then have "own_ok (owns s') (sync_count s')"
      using own_ok_new [OF ok] fresh by simp
    moreover have "waiting_ok s'"
      using w fresh p th idle by (auto simp: waiting_ok_def)
    ultimately show ?thesis by (simp add: inv_def)
  next
    case pop
    have "owns s' = (owns s)(Pool := remove1 a (owns s Pool),
                             Caller q := owns s (Caller q) @ [a])"
      using idle p pop by (intro owns_acquire_pop) simp_all
    moreover have "a \<in> set (owns s Pool)" using pop by (simp add: owns_def)
    ultimately have "own_ok (owns s') (sync_count s')"
      using own_ok_move [OF ok, of Pool "Caller q" a] pop by simp
    moreover have "waiting_ok s'"
      using w pop p th idle by (auto simp: waiting_ok_def)
    ultimately show ?thesis by (simp add: inv_def)
  qed
qed

lemma inv_submit_fence:
  assumes "inv s" "step (Submit_fence q res) s = Some s'"
  shows "inv s'"
proof -
  from submit_fence_effect [OF assms(2)] obtain a where
    acq: "callers s q = Acquired a" and c: "callers s' = (callers s)(q := Idle)"
    and th: "thr s' = thr s" and n: "sync_count s' = sync_count s"
    and eff: "if res = VK_SUCCESS \<or> res = VK_ERROR_DEVICE_LOST
           then free_syncs s' = free_syncs s \<and> pend s' = (pend s)(q := pend s q @ [a])
                \<and> device_lost (syncs s' a) = (res = VK_ERROR_DEVICE_LOST \<or> device_lost (syncs s a))
           else free_syncs s' = free_syncs s @ [a] \<and> pend s' = pend s"
    by blast
  from assms(1) have ok: "own_ok (owns s) (sync_count s)" and w: "waiting_ok s"
    by (simp_all add: inv_def)
  have held: "a \<in> set (owns s (Caller q))" using acq by (simp add: owns_def)
  show ?thesis
  proof (cases "res = VK_SUCCESS \<or> res = VK_ERROR_DEVICE_LOST")
    case True
    with eff have f: "free_syncs s' = free_syncs s"
      and p: "pend s' = (pend s)(q := pend s q @ [a])" by simp_all
    have "owns s' = (owns s)(Caller q := remove1 a (owns s (Caller q)),
                             Registry q := owns s (Registry q) @ [a])"
      using acq p f c by (intro owns_enqueue) simp_all
    then have "own_ok (owns s') (sync_count s')"
      using own_ok_move [OF ok, of "Caller q" "Registry q" a] held n by simp
    moreover have "waiting_ok s'"
      using w c p th acq by (auto simp: waiting_ok_def)
    ultimately show ?thesis by (simp add: inv_def)
  next
    case False
    with eff have f: "free_syncs s' = free_syncs s @ [a]" and p: "pend s' = pend s"
      by simp_all
    have "owns s' = (owns s)(Caller q := remove1 a (owns s (Caller q)),
                             Pool := owns s Pool @ [a])"
      using acq p f c by (intro owns_release) simp_all
    then have "own_ok (owns s') (sync_count s')"
      using own_ok_move [OF ok, of "Caller q" Pool a] held n by simp
    moreover have "waiting_ok s'"
      using w c p th acq by (auto simp: waiting_ok_def)
    ultimately show ?thesis by (simp add: inv_def)
  qed
qed

lemma next_pc_ok:
  "next_pc s q = Waiting a \<Longrightarrow> pend s q \<noteq> [] \<and> hd (pend s q) = a"
  by (auto simp: next_pc_def split: if_splits)

lemma inv_thread_wake:
  assumes "inv s" "step (Thread_wake q) s = Some s'"
  shows "inv s'"
proof -
  note e = thread_wake_effect [OF assms(2)]
  from assms(1) have ok: "own_ok (owns s) (sync_count s)" and w: "waiting_ok s"
    by (simp_all add: inv_def)
  have "owns s' = owns s" using e by (intro owns_same) simp_all
  moreover have "waiting_ok s'"
    using w e next_pc_ok [of s q] by (auto simp: waiting_ok_def)
  ultimately show ?thesis using ok e by (simp add: inv_def)
qed

lemma inv_thread_wait:
  assumes "inv s" "step (Thread_wait q wr) s = Some s'"
  shows "inv s'"
proof -
  from thread_wait_effect [OF assms(2)] obtain a where
    wt: "thr s q = Waiting a" and c: "callers s' = callers s"
    and n: "sync_count s' = sync_count s"
    and th: "thr s' = (thr s)(q := next_pc s' q)"
    and eff: "if \<not> device_lost (syncs s a) \<and> wr = VK_TIMEOUT
           then free_syncs s' = free_syncs s \<and> pend s' = pend s
           else free_syncs s' = free_syncs s @ [a]
                \<and> pend s' = (pend s)(q := remove1 a (pend s q))"
    by blast
  from assms(1) have ok: "own_ok (owns s) (sync_count s)" and w: "waiting_ok s"
    by (simp_all add: inv_def)
  from w wt have lv: "callers s q \<noteq> Destroyed" and ne: "pend s q \<noteq> []"
    and hd: "hd (pend s q) = a" by (auto simp: waiting_ok_def)
  have w': "waiting_ok s'"
    unfolding waiting_ok_def
  proof (intro allI conjI impI)
    fix q' assume "callers s' q' = Destroyed"
    then show "thr s' q' = Returned"
      using w c th lv by (auto simp: waiting_ok_def)
  next
    fix q' b assume b: "thr s' q' = Waiting b"
    show "pend s' q' \<noteq> []" "hd (pend s' q') = b"
      using b w th eff next_pc_ok [of s' q b]
      by (auto simp: waiting_ok_def split: if_splits)
  qed
  show ?thesis
  proof (cases "\<not> device_lost (syncs s a) \<and> wr = VK_TIMEOUT")
    case True
    with eff c have "owns s' = owns s" by (intro owns_same) simp_all
    with ok n w' show ?thesis by (simp add: inv_def)
  next
    case False
    with eff have f: "free_syncs s' = free_syncs s @ [a]"
      and p: "pend s' = (pend s)(q := remove1 a (pend s q))" by simp_all
    have "owns s' = (owns s)(Registry q := remove1 a (owns s (Registry q)),
                             Pool := owns s Pool @ [a])"
      using lv p f c by (intro owns_retire) simp_all
    moreover have "a \<in> set (owns s (Registry q))"
      using lv ne hd by (auto simp: owns_def)
    ultimately have "own_ok (owns s') (sync_count s')"
      using own_ok_move [OF ok, of "Registry q" Pool a] n by simp
    with w' show ?thesis by (simp add: inv_def)
  qed
qed

lemma inv_destroy_request:
  assumes "inv s" "step (Destroy_request q) s = Some s'"
  shows "inv s'"
proof -
  note e = destroy_request_effect [OF assms(2)]
  from assms(1) have ok: "own_ok (owns s) (sync_count s)" and w: "waiting_ok s"
    by (simp_all add: inv_def)
  have "owns s' = owns s" using e by (intro owns_same) auto
  moreover have "waiting_ok s'"
    using w e by (auto simp: waiting_ok_def)
  ultimately show ?thesis using ok e by (simp add: inv_def)
qed

lemma inv_destroy_complete:
  assumes "inv s" "step (Destroy_complete q) s = Some s'"
  shows "inv s'"
proof -
  note e = destroy_complete_effect [OF assms(2)]
  from assms(1) have ok: "own_ok (owns s) (sync_count s)" and w: "waiting_ok s"
    by (simp_all add: inv_def)
  have "owns s' = (owns s)(Registry q := [], Pool := owns s Pool @ owns s (Registry q))"
    using e by (intro owns_drain) simp_all
  then have "own_ok (owns s') (sync_count s')"
    using own_ok_drain [OF ok, of "Registry q" Pool] e by simp
  moreover have "waiting_ok s'"
    using w e by (auto simp: waiting_ok_def)
  ultimately show ?thesis by (simp add: inv_def)
qed

lemma inv_step:
  assumes "inv s" "step e s = Some s'"
  shows "inv s'"
  using assms
  by (cases e) (blast intro: inv_acquire inv_submit_fence inv_thread_wake inv_thread_wait
        inv_destroy_request inv_destroy_complete)+

lemma inv_run:
  assumes "inv s" "run es s = Some s'"
  shows "inv s'"
  using assms
  by (induction es arbitrary: s) (auto split: option.splits dest: inv_step)

section \<open>Order of the callbacks\<close>

lemma retired_by_append [simp]:
  "retired_by q (xs @ ys) = retired_by q xs @ retired_by q ys"
  by (induction q xs rule: retired_by.induct) simp_all

lemma acquire_retired:
  assumes "step (Submit_acquire q fl r t m c) s = Some s'"
  shows "retired_by q' (trace s') = retired_by q' (trace s)"
  using assms
  by (auto simp: vkr_device_alloc_queue_sync_def malloc_sync_def Let_def split: if_splits)

lemma submit_fence_retired:
  assumes "step (Submit_fence q res) s = Some s'"
  shows "retired_by q' (trace s') = retired_by q' (trace s)"
  using assms
  by (auto simp: submit_fence_def Let_def split: if_splits caller_pc.splits)

lemma thread_wake_retired:
  assumes "step (Thread_wake q) s = Some s'"
  shows "retired_by q' (trace s') = retired_by q' (trace s)"
  using assms
  by (auto simp: thread_wake_def split: if_splits)

lemma thread_wait_retired:
  assumes "step (Thread_wait q w) s = Some s'" "thr s q = Waiting a"
  shows "retired_by q' (trace s') = retired_by q' (trace s)
     @ (if q' = q \<and> \<not> (\<not> device_lost (syncs s a) \<and> w = VK_TIMEOUT)
        then [sync_key s a] else [])"
  using assms
  by (auto simp: thread_wait_def thr_def Let_def sync_key_def split: if_splits)

lemma destroy_request_retired:
  assumes "step (Destroy_request q) s = Some s'"
  shows "retired_by q' (trace s') = retired_by q' (trace s)"
  using assms
  by (auto split: if_splits)

lemma foldl_retire_trace:
  "retired_by q' (trace (foldl (\<lambda>s' sync. vkr_queue_sync_retire q sync s') s xs))
     = retired_by q' (trace s) @ (if q' = q then map (sync_key s) xs else [])"
proof (induction xs arbitrary: s)
  case Nil then show ?case by simp
next
  case (Cons a xs)
  have "sync_key (vkr_queue_sync_retire q a s) = sync_key s"
    by (simp add: sync_key_def fun_eq_iff)
  with Cons show ?case by (simp add: sync_key_def)
qed

lemma destroy_complete_retired:
  assumes "step (Destroy_complete q) s = Some s'"
  shows "retired_by q' (trace s') = retired_by q' (trace s)
     @ (if q' = q then map (sync_key s) (pend s q) else [])"
  using assms
  by (auto simp: destroy_tail_def Let_def retire_pending_def foldl_retire_trace emit_def
           split: if_splits)

lemma submitted_Cons:
  "submitted q cur (e # es) = submitted q cur [e] @ submitted q (cur_after q cur e) es"
  by (cases e) simp_all

lemma registry_mem:
  "callers s q \<noteq> Destroyed \<Longrightarrow> owns s (Registry q) = pend s q"
  by (simp add: owns_def)

lemma caller_mem:
  "callers s q = Acquired a \<Longrightarrow> owns s (Caller q) = [a]"
  by (simp add: owns_def)

lemma acquire_frame:
  assumes "inv s" "step (Submit_acquire q fl r t m c) s = Some s'"
    "b \<in> set (owns s ow)" "ow \<noteq> Pool"
  shows "syncs s' b = syncs s b"
proof -
  from assms(1) have ok: "own_ok (owns s) (sync_count s)" by (simp add: inv_def)
  note e = acquire_effect [OF assms(2)]
  from e consider
      (fail) "syncs s' = syncs s"
    | (fresh) "\<forall>b. b \<noteq> sync_count s \<longrightarrow> syncs s' b = syncs s b"
    | (pop) a rest where "free_syncs s = a # rest" "\<forall>b. b \<noteq> a \<longrightarrow> syncs s' b = syncs s b"
    by auto
  then show ?thesis
  proof cases
    case fail then show ?thesis by simp
  next
    case fresh
    moreover have "b < sync_count s" using own_okD(2) [OF ok assms(3)] .
    ultimately show ?thesis by simp
  next
    case pop
    then have "a \<in> set (owns s Pool)" by (simp add: owns_def)
    with own_okD(3) [OF ok, of ow Pool b] assms(3,4) have "b \<noteq> a" by auto
    with pop show ?thesis by simp
  qed
qed

lemma map_key_cong:
  assumes "\<And>b. b \<in> set xs \<Longrightarrow> syncs s' b = syncs s b"
  shows "map (sync_key s') xs = map (sync_key s) xs"
  using assms by (simp add: sync_key_def)

lemma fifo_acquire:
  assumes "inv s" "held_key q cur s" "step (Submit_acquire q' fl r t m c) s = Some s'"
  shows "retired_by q (trace s') @ outstanding q s' = retired_by q (trace s) @ outstanding q s"
    and "held_key q (if q' = q then Some (r, t) else cur) s'"
proof -
  note e = acquire_effect [OF assms(3)]
  have d: "callers s' q = Destroyed \<longleftrightarrow> callers s q = Destroyed"
    using e by (auto split: if_splits)
  have "outstanding q s' = outstanding q s"
  proof (cases "callers s q = Destroyed")
    case True with d show ?thesis by (simp add: outstanding_def)
  next
    case False
    have "map (sync_key s') (pend s q) = map (sync_key s) (pend s q)"
      using acquire_frame [OF assms(1,3), of _ "Registry q"] registry_mem [OF False]
      by (intro map_key_cong) auto
    with False d e show ?thesis by (simp add: outstanding_def)
  qed
  then show "retired_by q (trace s') @ outstanding q s' = retired_by q (trace s) @ outstanding q s"
    using acquire_retired [OF assms(3)] by simp
  show "held_key q (if q' = q then Some (r, t) else cur) s'"
  proof (cases "q' = q")
    case True
    then show ?thesis using e by (auto simp: held_key_def sync_key_def)
  next
    case False
    have c: "callers s' q = callers s q" using e False by auto
    show ?thesis unfolding held_key_def
    proof (intro allI impI)
      fix a assume a: "callers s' q = Acquired a"
      then have "callers s q = Acquired a" using c by simp
      moreover from this have "syncs s' a = syncs s a"
        using acquire_frame [OF assms(1,3), of a "Caller q"] by (simp add: caller_mem)
      ultimately show "(if q' = q then Some (r, t) else cur) = Some (sync_key s' a)"
        using assms(2) False by (simp add: held_key_def sync_key_def)
    qed
  qed
qed

lemma submit_fence_keys:
  assumes "step (Submit_fence q res) s = Some s'"
  shows "sync_key s' = sync_key s"
  using submit_fence_effect [OF assms] by (auto simp: sync_key_def fun_eq_iff)

lemma fifo_submit_fence:
  assumes "inv s" "held_key q cur s" "step (Submit_fence q' res) s = Some s'"
  shows "retired_by q (trace s') @ outstanding q s'
       = retired_by q (trace s) @ outstanding q s @ submitted q cur [Submit_fence q' res]"
    and "held_key q (if q' = q then None else cur) s'"
proof -
  from submit_fence_effect [OF assms(3)] obtain a where
    acq: "callers s q' = Acquired a" and c: "callers s' = (callers s)(q' := Idle)"
    and eff: "if res = VK_SUCCESS \<or> res = VK_ERROR_DEVICE_LOST
           then free_syncs s' = free_syncs s \<and> pend s' = (pend s)(q' := pend s q' @ [a])
                \<and> device_lost (syncs s' a) = (res = VK_ERROR_DEVICE_LOST \<or> device_lost (syncs s a))
           else free_syncs s' = free_syncs s @ [a] \<and> pend s' = pend s"
    by blast
  note k = submit_fence_keys [OF assms(3)]
  show "held_key q (if q' = q then None else cur) s'"
    using assms(2) c k by (auto simp: held_key_def)
  have "outstanding q s' = outstanding q s @ submitted q cur [Submit_fence q' res]"
  proof (cases "q' = q")
    case True
    with acq assms(2) have "cur = Some (sync_key s a)" by (simp add: held_key_def)
    have "pend s' q = pend s q @ (if accepted res then [a] else [])"
      using eff True by (cases "res = VK_SUCCESS \<or> res = VK_ERROR_DEVICE_LOST")
        (simp_all add: accepted_def)
    with True acq c k \<open>cur = Some (sync_key s a)\<close> show ?thesis
      by (simp add: outstanding_def)
  next
    case False
    have "pend s' q = pend s q"
      using eff False by (cases "res = VK_SUCCESS \<or> res = VK_ERROR_DEVICE_LOST") simp_all
    with False c k show ?thesis by (simp add: outstanding_def)
  qed
  then show "retired_by q (trace s') @ outstanding q s'
       = retired_by q (trace s) @ outstanding q s @ submitted q cur [Submit_fence q' res]"
    using submit_fence_retired [OF assms(3)] by simp
qed

lemma fifo_thread_wake:
  assumes "step (Thread_wake q') s = Some s'"
  shows "retired_by q (trace s') @ outstanding q s' = retired_by q (trace s) @ outstanding q s"
    and "held_key q cur s' = held_key q cur s"
  using thread_wake_effect [OF assms] thread_wake_retired [OF assms]
  by (simp_all add: outstanding_def held_key_def sync_key_def)

lemma fifo_thread_wait:
  assumes "inv s" "step (Thread_wait q' w) s = Some s'"
  shows "retired_by q (trace s') @ outstanding q s' = retired_by q (trace s) @ outstanding q s"
    and "held_key q cur s' = held_key q cur s"
proof -
  from thread_wait_effect [OF assms(2)] obtain a where
    wt: "thr s q' = Waiting a" and c: "callers s' = callers s"
    and sy: "syncs s' = syncs s"
    and eff: "if \<not> device_lost (syncs s a) \<and> w = VK_TIMEOUT
           then free_syncs s' = free_syncs s \<and> pend s' = pend s
           else free_syncs s' = free_syncs s @ [a]
                \<and> pend s' = (pend s)(q' := remove1 a (pend s q'))"
    by blast
  from assms(1) have wok: "waiting_ok s" by (simp add: inv_def)
  from wok wt have lv: "callers s q' \<noteq> Destroyed" and ne: "pend s q' \<noteq> []"
    and hd: "hd (pend s q') = a" by (auto simp: waiting_ok_def)
  then obtain rest where pq: "pend s q' = a # rest" by (cases "pend s q'") auto
  have k: "sync_key s' = sync_key s" using sy by (simp add: sync_key_def fun_eq_iff)
  show "held_key q cur s' = held_key q cur s" using c k by (simp add: held_key_def)
  show "retired_by q (trace s') @ outstanding q s' = retired_by q (trace s) @ outstanding q s"
  proof (cases "\<not> device_lost (syncs s a) \<and> w = VK_TIMEOUT")
    case True
    with thread_wait_retired [OF assms(2) wt, of q] eff c k show ?thesis
      by (simp add: outstanding_def)
  next
    case False
    with eff have p: "pend s' = (pend s)(q' := remove1 a (pend s q'))" by simp
    show ?thesis
    proof (cases "q = q'")
      case True
      with thread_wait_retired [OF assms(2) wt, of q] False p c k pq lv show ?thesis
        by (simp add: outstanding_def)
    next
      case neq: False
      with thread_wait_retired [OF assms(2) wt, of q] False p c k show ?thesis
        by (simp add: outstanding_def)
    qed
  qed
qed

lemma fifo_destroy_request:
  assumes "step (Destroy_request q') s = Some s'"
  shows "retired_by q (trace s') @ outstanding q s' = retired_by q (trace s) @ outstanding q s"
    and "held_key q cur s' = held_key q cur s"
  using destroy_request_effect [OF assms] destroy_request_retired [OF assms]
  by (auto simp: outstanding_def held_key_def sync_key_def)

lemma fifo_destroy_complete:
  assumes "step (Destroy_complete q') s = Some s'"
  shows "retired_by q (trace s') @ outstanding q s' = retired_by q (trace s) @ outstanding q s"
    and "held_key q cur s' = held_key q cur s"
  using destroy_complete_effect [OF assms] destroy_complete_retired [OF assms]
  by (auto simp: outstanding_def held_key_def sync_key_def)

lemma fifo_step:
  assumes "inv s" "held_key q cur s" "step e s = Some s'"
  shows "retired_by q (trace s') @ outstanding q s'
       = retired_by q (trace s) @ outstanding q s @ submitted q cur [e]
     \<and> held_key q (cur_after q cur e) s'"
proof (cases e)
  case (Submit_acquire q' fl r t m c)
  then have st: "step (Submit_acquire q' fl r t m c) s = Some s'" using assms(3) by simp
  from fifo_acquire [OF assms(1,2) st] Submit_acquire show ?thesis by simp
next
  case (Submit_fence q' res)
  then have st: "step (Submit_fence q' res) s = Some s'" using assms(3) by simp
  from fifo_submit_fence [OF assms(1,2) st] Submit_fence show ?thesis by simp
next
  case (Thread_wake q')
  then have st: "step (Thread_wake q') s = Some s'" using assms(3) by simp
  from fifo_thread_wake [OF st] assms(2) Thread_wake show ?thesis by simp
next
  case (Thread_wait q' w)
  then have st: "step (Thread_wait q' w) s = Some s'" using assms(3) by simp
  from fifo_thread_wait [OF assms(1) st] assms(2) Thread_wait show ?thesis by simp
next
  case (Destroy_request q')
  then have st: "step (Destroy_request q') s = Some s'" using assms(3) by simp
  from fifo_destroy_request [OF st] assms(2) Destroy_request show ?thesis by simp
next
  case (Destroy_complete q')
  then have st: "step (Destroy_complete q') s = Some s'" using assms(3) by simp
  from fifo_destroy_complete [OF st] assms(2) Destroy_complete show ?thesis by simp
qed

lemma fifo_run:
  assumes "inv s" "held_key q cur s" "run es s = Some s'"
  shows "retired_by q (trace s') @ outstanding q s'
       = retired_by q (trace s) @ outstanding q s @ submitted q cur es"
  using assms
proof (induction es arbitrary: s cur)
  case Nil then show ?case by simp
next
  case (Cons e es)
  from Cons.prems(3) obtain s1 where s1: "step e s = Some s1" and r: "run es s1 = Some s'"
    by (auto split: option.splits)
  note f = fifo_step [OF Cons.prems(1,2) s1]
  have "retired_by q (trace s') @ outstanding q s'
       = retired_by q (trace s1) @ outstanding q s1 @ submitted q (cur_after q cur e) es"
    using Cons.IH [OF inv_step [OF Cons.prems(1) s1] _ r] f by simp
  with f show ?case by (simp add: submitted_Cons [of q cur e es])
qed

section \<open>Evaluating the examples\<close>

lemma inv_world0: "inv world0"
  by (simp add: inv_def own_ok_def owns_def waiting_ok_def world0_def queue0_def pend_def thr_def
        split: owner.splits)

lemmas eval_defs = vkr_device_alloc_queue_sync_def malloc_sync_def free_sync_def
  sync_init_def emit_def
  vkr_device_free_queue_sync_def vkr_queue_sync_retire_def set_pending_def enqueue_sync_def
  submit_fence_def set_thread_def thread_loop_head_def thread_wake_def thread_wait_def
  request_join_def set_caller_def pend_def retire_pending_def destroy_tail_def
  mark_device_lost_def world0_def queue0_def sync0_def Let_def

lemma assign_ring_proj:
  "sync_queues (vkr_queue_assign_object_id q ident valid s) = sync_queues s"
  "queue_ring_idx (queue_mem (vkr_queue_assign_object_id q ident valid s) q')
     = queue_ring_idx (queue_mem s q')"
  by (simp_all add: vkr_queue_assign_object_id_def vkr_cs_decoder_set_fatal_def emit_def)

section \<open>A whole submission\<close>

lemma alloc_callers [simp]:
  "callers (snd (vkr_device_alloc_queue_sync fl r t m c s)) = callers s"
  by (simp add: vkr_device_alloc_queue_sync_def malloc_sync_def Let_def sync_init_def emit_def)

lemma submit_fence_set_caller:
  "submit_fence q a res (set_caller q' pc s)
     = (fst (submit_fence q a res s), set_caller q' pc (snd (submit_fence q a res s)))"
  by (simp add: submit_fence_def Let_def set_caller_def emit_def enqueue_sync_def
        set_pending_def vkr_device_free_queue_sync_def pend_def mark_device_lost_def)

lemma set_caller_twice [simp]:
  "set_caller q pc (set_caller q pc' s) = set_caller q pc s"
  by (simp add: set_caller_def)

lemma set_caller_same: "callers s q = pc \<Longrightarrow> set_caller q pc s = s"
  by (simp add: set_caller_def fun_upd_idem)

lemma submit_fence_callers [simp]:
  "callers (snd (submit_fence q a res s)) = callers s"
  by (simp add: submit_fence_def Let_def)

text \<open>The whole call is the two steps of the calling thread, one after the other.\<close>

lemma submit_as_steps:
  assumes "callers s q = Idle"
  shows "run (Submit_acquire q fl r t m c #
              (if fst (vkr_device_alloc_queue_sync fl r t m c s) = None then []
               else [Submit_fence q res])) s
         = Some (snd (vkr_queue_sync_submit q fl r t m c res s))"
proof (cases "vkr_device_alloc_queue_sync fl r t m c s")
  case (Pair o1 s1)
  then have c1: "callers s1 q = Idle" using assms alloc_callers [of fl r t m c s] by simp
  show ?thesis
  proof (cases o1)
    case None
    with Pair assms show ?thesis by (simp add: vkr_queue_sync_submit_def)
  next
    case (Some a)
    have "set_caller q Idle (snd (submit_fence q a res s1)) = snd (submit_fence q a res s1)"
      using c1 by (intro set_caller_same) simp
    with Pair Some assms show ?thesis
      by (simp add: vkr_queue_sync_submit_def submit_fence_set_caller)
  qed
qed

lemma inv_submit:
  assumes "inv s" "callers s q = Idle"
  shows "inv (snd (vkr_queue_sync_submit q fl r t m c res s))"
  using inv_run [OF assms(1) submit_as_steps [OF assms(2)]] .


lemma run_append:
  "run (xs @ ys) s = (case run xs s of None \<Rightarrow> None | Some s1 \<Rightarrow> run ys s1)"
  by (induction xs arbitrary: s) (simp_all split: option.splits)

lemma alloc_retired:
  "retired_by q (trace (snd (vkr_device_alloc_queue_sync fl r t m c s))) = retired_by q (trace s)"
  by (simp add: vkr_device_alloc_queue_sync_def malloc_sync_def Let_def)

lemma alloc_pend:
  "queue_mem (snd (vkr_device_alloc_queue_sync fl r t m c s)) = queue_mem s"
  by (simp add: vkr_device_alloc_queue_sync_def malloc_sync_def Let_def)

section \<open>Objects on the list keep their fields\<close>

lemma sync_stable_step:
  assumes "inv s" "in_flight q a s" "step e s = Some s'"
  shows "syncs s' a = syncs s a"
proof -
  from assms(1) have ok: "own_ok (owns s) (sync_count s)" by (simp add: inv_def)
  from assms(2) have reg: "a \<in> set (owns s (Registry q))"
    by (simp add: in_flight_def owns_def)
  show ?thesis
  proof (cases e)
    case (Submit_acquire q' fl r t m c)
    with assms(3) have st: "step (Submit_acquire q' fl r t m c) s = Some s'" by simp
    show ?thesis by (rule acquire_frame [OF assms(1) st reg]) simp
  next
    case (Submit_fence q' res)
    with assms(3) have st: "step (Submit_fence q' res) s = Some s'" by simp
    from submit_fence_effect [OF st] obtain a' where
      acq: "callers s q' = Acquired a'" and fr: "\<forall>b. b \<noteq> a' \<longrightarrow> syncs s' b = syncs s b"
      by blast
    from acq have "a' \<in> set (owns s (Caller q'))" by (simp add: owns_def)
    with own_okD(3) [OF ok _ reg, of "Caller q'"] have "a \<noteq> a'" by auto
    with fr show ?thesis by simp
  next
    case (Thread_wake q')
    with assms(3) have st: "step (Thread_wake q') s = Some s'" by simp
    from thread_wake_effect [OF st] show ?thesis by simp
  next
    case (Thread_wait q' w)
    with assms(3) have st: "step (Thread_wait q' w) s = Some s'" by simp
    from thread_wait_effect [OF st] obtain b where "syncs s' = syncs s" by blast
    then show ?thesis by simp
  next
    case (Destroy_request q')
    with assms(3) have st: "step (Destroy_request q') s = Some s'" by simp
    from destroy_request_effect [OF st] show ?thesis by simp
  next
    case (Destroy_complete q')
    with assms(3) have st: "step (Destroy_complete q') s = Some s'" by simp
    from destroy_complete_effect [OF st] show ?thesis by simp
  qed
qed

lemma sync_stable_run:
  assumes "inv s" "in_flight q a s" "run_keeping (in_flight q a) es s = Some s'"
  shows "syncs s' a = syncs s a \<and> inv s' \<and> in_flight q a s'"
  using assms
proof (induction es arbitrary: s)
  case Nil then show ?case by simp
next
  case (Cons e es)
  from Cons.prems(3) obtain s1 where s1: "step e s = Some s1" "in_flight q a s1"
    and r: "run_keeping (in_flight q a) es s1 = Some s'"
    by (auto split: option.splits if_splits)
  from Cons.IH [OF inv_step [OF Cons.prems(1) s1(1)] s1(2) r]
    sync_stable_step [OF Cons.prems(1,2) s1(1)]
  show ?case by simp
qed

lemma alloc_some:
  assumes "vkr_device_alloc_queue_sync fl r t m c s = (Some a, s1)"
  shows "ring_idx (syncs s1 a) = r" "fence_id (syncs s1 a) = t" "\<not> device_lost (syncs s1 a)"
    "flags (syncs s1 a) = fl" "pend s1 = pend s" "callers s1 = callers s" "thr s1 = thr s"
proof -
  have "ring_idx (syncs s1 a) = r \<and> fence_id (syncs s1 a) = t \<and> \<not> device_lost (syncs s1 a)
     \<and> flags (syncs s1 a) = fl \<and> pend s1 = pend s \<and> callers s1 = callers s \<and> thr s1 = thr s"
  proof (cases "free_syncs s = []")
    case True
    with assms show ?thesis
      by (clarsimp simp: vkr_device_alloc_queue_sync_def malloc_sync_def Let_def split: if_splits)
         (simp add: sync_init_def pend_def thr_def emit_def fun_eq_iff)
  next
    case False
    with assms show ?thesis
      by (clarsimp simp: vkr_device_alloc_queue_sync_def Let_def)
         (simp add: sync_init_def pend_def thr_def emit_def fun_eq_iff)
  qed
  then show "ring_idx (syncs s1 a) = r" "fence_id (syncs s1 a) = t"
    "\<not> device_lost (syncs s1 a)" "flags (syncs s1 a) = fl" "pend s1 = pend s"
    "callers s1 = callers s" "thr s1 = thr s"
    by simp_all
qed

lemma submit_device_lost:
  assumes "vkr_device_alloc_queue_sync fl r t m c s = (Some a, s1)"
    "vkr_queue_sync_submit q fl r t m c VK_ERROR_DEVICE_LOST s = (ok, s2)"
  shows "ok" "device_lost (syncs s2 a)" "pend s2 q = pend s q @ [a]"
    "ring_idx (syncs s2 a) = r" "fence_id (syncs s2 a) = t" "callers s2 = callers s"
proof -
  note k = alloc_some [OF assms(1)]
  have s2: "s2 = enqueue_sync q a (mark_device_lost a
      (emit [QueueSubmit (base_handle (queue_mem s1 q)) (fence (syncs s1 a))] s1))"
    and ok: "ok"
    using assms by (simp_all add: vkr_queue_sync_submit_def submit_fence_def Let_def)
  show "ok" by fact
  show "device_lost (syncs s2 a)" "pend s2 q = pend s q @ [a]"
    "ring_idx (syncs s2 a) = r" "fence_id (syncs s2 a) = t" "callers s2 = callers s"
    using k by (simp_all add: s2)
qed

lemma thread_wait_lost:
  assumes "thr s q = Waiting a" "device_lost (syncs s a)"
  shows "thread_wait q w s = Some (thread_loop_head q (vkr_queue_sync_retire q a
           (set_pending q (remove1 a (pend s q)) (emit [Mtx_lock (Queue_mutex q)] s))))"
  using assms by (simp add: thread_wait_def thr_def Let_def)

section \<open>The wait of the thread\<close>



section \<open>Destroying a queue\<close>

lemma submit_fence_queue_fields:
  "join (queue_mem (snd (submit_fence q a res s)) q') = join (queue_mem s q')"
  by (simp add: submit_fence_def Let_def)

lemma join_step:
  assumes "step e s = Some s'" "join (queue_mem s q)"
  shows "join (queue_mem s' q)"
proof (cases e)
  case (Submit_acquire q' fl r t m c)
  with assms alloc_pend [of fl r t m c s] show ?thesis
    by (auto split: if_splits prod.splits option.splits)
next
  case (Submit_fence q' res)
  with assms submit_fence_queue_fields [of q' _ res s q] show ?thesis
    by (auto split: caller_pc.splits)
next
  case (Thread_wake q')
  with assms show ?thesis by (auto simp: thread_wake_def split: if_splits)
next
  case (Thread_wait q' w)
  with assms have st: "step (Thread_wait q' w) s = Some s'" by simp
  from thread_wait_effect [OF st] assms(2) show ?thesis by blast
next
  case (Destroy_request q')
  with assms show ?thesis by (auto split: if_splits)
next
  case (Destroy_complete q')
  with assms show ?thesis by (auto split: if_splits)
qed

lemma join_run:
  assumes "run es s = Some s'" "join (queue_mem s q)"
  shows "join (queue_mem s' q)"
  using assms
  by (induction es arbitrary: s) (auto split: option.splits dest: join_step)

lemma joining_step:
  assumes "step e s = Some s'" "callers s q = Joining \<or> callers s q = Destroyed"
  shows "(callers s' q = Joining \<or> callers s' q = Destroyed)
       \<and> submitted q cur (e # es) = submitted q cur es"
proof (cases e)
  case (Submit_acquire q' fl r t m c)
  with assms have st: "step (Submit_acquire q' fl r t m c) s = Some s'" by simp
  from acquire_effect [OF st] assms(2) have "q' \<noteq> q" by auto
  with acquire_effect [OF st] assms(2) Submit_acquire show ?thesis by auto
next
  case (Submit_fence q' res)
  with assms have st: "step (Submit_fence q' res) s = Some s'" by simp
  from submit_fence_effect [OF st] assms(2) have "q' \<noteq> q" by auto
  with submit_fence_effect [OF st] assms(2) Submit_fence show ?thesis by auto
next
  case (Thread_wake q')
  with assms have st: "step (Thread_wake q') s = Some s'" by simp
  from thread_wake_effect [OF st] assms(2) Thread_wake show ?thesis by simp
next
  case (Thread_wait q' w)
  with assms have st: "step (Thread_wait q' w) s = Some s'" by simp
  from thread_wait_effect [OF st] obtain a where "callers s' = callers s" by blast
  with assms(2) Thread_wait show ?thesis by simp
next
  case (Destroy_request q')
  with assms have st: "step (Destroy_request q') s = Some s'" by simp
  from destroy_request_effect [OF st] assms(2) Destroy_request show ?thesis by auto
next
  case (Destroy_complete q')
  with assms have st: "step (Destroy_complete q') s = Some s'" by simp
  from destroy_complete_effect [OF st] assms(2) Destroy_complete show ?thesis by auto
qed

lemma joining_run:
  assumes "run es s = Some s'" "callers s q = Joining \<or> callers s q = Destroyed"
  shows "submitted q cur es = []"
  using assms
proof (induction es arbitrary: s cur)
  case Nil then show ?case by simp
next
  case (Cons e es)
  from Cons.prems(1) obtain s1 where s1: "step e s = Some s1" and r: "run es s1 = Some s'"
    by (auto split: option.splits)
  from joining_step [OF s1 Cons.prems(2), of cur es] Cons.IH [OF r, of cur]
  show ?case by simp
qed

lemma kept_step:
  assumes "step e s = Some s'" "\<not> is_acquire e"
  shows "set (pend s q) \<union> set (free_syncs s) \<subseteq> set (pend s' q) \<union> set (free_syncs s')"
proof (cases e)
  case (Submit_acquire q' fl r t m c)
  with assms(2) show ?thesis by simp
next
  case (Submit_fence q' res)
  with assms have st: "step (Submit_fence q' res) s = Some s'" by simp
  from submit_fence_effect [OF st] show ?thesis
    by (cases "res = VK_SUCCESS \<or> res = VK_ERROR_DEVICE_LOST") auto
next
  case (Thread_wake q')
  with assms have st: "step (Thread_wake q') s = Some s'" by simp
  from thread_wake_effect [OF st] show ?thesis by simp
next
  case (Thread_wait q' w)
  with assms have st: "step (Thread_wait q' w) s = Some s'" by simp
  from thread_wait_effect [OF st] obtain a where
    eff: "if \<not> device_lost (syncs s a) \<and> w = VK_TIMEOUT
           then free_syncs s' = free_syncs s \<and> pend s' = pend s
           else free_syncs s' = free_syncs s @ [a]
                \<and> pend s' = (pend s)(q' := remove1 a (pend s q'))"
    by blast
  show ?thesis
  proof (cases "\<not> device_lost (syncs s a) \<and> w = VK_TIMEOUT")
    case True with eff show ?thesis by simp
  next
    case False
    with eff have "free_syncs s' = free_syncs s @ [a]"
      "pend s' = (pend s)(q' := remove1 a (pend s q'))" by simp_all
    then show ?thesis by (auto simp: in_set_remove1)
  qed
next
  case (Destroy_request q')
  with assms have st: "step (Destroy_request q') s = Some s'" by simp
  from destroy_request_effect [OF st] show ?thesis by simp
next
  case (Destroy_complete q')
  with assms have st: "step (Destroy_complete q') s = Some s'" by simp
  from destroy_complete_effect [OF st] show ?thesis by auto
qed

lemma kept_run:
  assumes "run es s = Some s'" "\<forall>e\<in>set es. \<not> is_acquire e"
  shows "set (pend s q) \<union> set (free_syncs s) \<subseteq> set (pend s' q) \<union> set (free_syncs s')"
  using assms
proof (induction es arbitrary: s)
  case Nil then show ?case by simp
next
  case (Cons e es)
  from Cons.prems(1) obtain s1 where s1: "step e s = Some s1" and r: "run es s1 = Some s'"
    by (auto split: option.splits)
  from kept_step [OF s1, of q] Cons.IH [OF r] Cons.prems(2) show ?case by auto
qed

lemma foldl_retire_trace_full:
  "trace (foldl (\<lambda>s' sync. vkr_queue_sync_retire q sync s') s xs)
     = trace s @ concat (map (\<lambda>a. [Retire_fence q (ring_idx (syncs s a)) (fence_id (syncs s a)),
                                    Mtx_lock Free_sync_mutex, Mtx_unlock Free_sync_mutex]) xs)"
  by (induction xs arbitrary: s) simp_all

lemma foldl_retire_ctx:
  "sync_queues (foldl (\<lambda>s' sync. vkr_queue_sync_retire q sync s') s xs) = sync_queues s
   \<and> queues (foldl (\<lambda>s' sync. vkr_queue_sync_retire q sync s') s xs) = queues s"
  by (induction xs arbitrary: s)
     (simp_all add: vkr_queue_sync_retire_def vkr_device_free_queue_sync_def emit_def)

lemma destroy_complete_fields:
  assumes "step (Destroy_complete q) s1 = Some s"
  shows "trace s = trace s1
           @ concat (map (\<lambda>a. [Retire_fence q (ring_idx (syncs s1 a)) (fence_id (syncs s1 a)),
                                Mtx_lock Free_sync_mutex, Mtx_unlock Free_sync_mutex])
                       (pend s1 q))
           @ [if base_id (queue_mem s1 q) \<noteq> 0 then Remove_object q else Free_queue q]"
    and "sync_queues s = (if 0 < queue_ring_idx (queue_mem s1 q)
                          then (sync_queues s1)[unat (queue_ring_idx (queue_mem s1 q)) := None]
                          else sync_queues s1)"
    and "queues s = remove1 q (queues s1)"
proof -
  have q: "queue_mem (retire_pending q s1) = queue_mem s1" by simp
  have t: "trace (retire_pending q s1) = trace s1
           @ concat (map (\<lambda>a. [Retire_fence q (ring_idx (syncs s1 a)) (fence_id (syncs s1 a)),
                                Mtx_lock Free_sync_mutex, Mtx_unlock Free_sync_mutex])
                       (pend s1 q))"
    by (simp add: retire_pending_def foldl_retire_trace_full)
  have o: "sync_queues (retire_pending q s1) = sync_queues s1
         \<and> queues (retire_pending q s1) = queues s1"
    by (simp add: retire_pending_def foldl_retire_ctx)
  from assms have s: "s = set_caller q Destroyed (destroy_tail q (retire_pending q s1))"
    by (auto split: if_splits)
  show "trace s = trace s1
           @ concat (map (\<lambda>a. [Retire_fence q (ring_idx (syncs s1 a)) (fence_id (syncs s1 a)),
                                Mtx_lock Free_sync_mutex, Mtx_unlock Free_sync_mutex])
                       (pend s1 q))
           @ [if base_id (queue_mem s1 q) \<noteq> 0 then Remove_object q else Free_queue q]"
    using q t by (simp add: s destroy_tail_def Let_def emit_def)
  show "sync_queues s = (if 0 < queue_ring_idx (queue_mem s1 q)
                          then (sync_queues s1)[unat (queue_ring_idx (queue_mem s1 q)) := None]
                          else sync_queues s1)"
    using q o by (simp add: s destroy_tail_def Let_def emit_def set_caller_def)
  show "queues s = remove1 q (queues s1)"
    using q o by (simp add: s destroy_tail_def Let_def emit_def set_caller_def)
qed


lemma thread_exit_returns:
  assumes "join (queue_mem s q)"
  shows "\<exists>s'. run (thread_exit q w s) s = Some s' \<and> thr s' q = Returned
              \<and> callers s' = callers s"
proof (cases "thr s q")
  case Blocked
  then show ?thesis using assms
    by (simp add: thread_exit_def thread_wake_def thr_def [symmetric] next_pc_def)
next
  case (Waiting a)
  have "\<exists>s'. thread_wait q w s = Some s'"
    using Waiting by (simp add: thread_wait_def thr_def Let_def)
  then obtain s' where st: "step (Thread_wait q w) s = Some s'" by auto
  from thread_wait_effect [OF st] assms have "thr s' q = Returned" "callers s' = callers s"
    by (auto simp: next_pc_def)
  with st Waiting show ?thesis by (simp add: thread_exit_def)
next
  case Returned
  then show ?thesis by (simp add: thread_exit_def)
qed

section \<open>Reuse of the pooled object\<close>

lemma creates_append [simp]: "creates (xs @ ys) = creates xs + creates ys"
  by (induction xs rule: creates.induct) simp_all

lemma acquire_creates:
  assumes "step (Submit_acquire q fl r t m c) s = Some s'"
  shows "creates (trace s') = creates (trace s) + (if free_syncs s = [] \<and> m then 1 else 0)"
    and "join (queue_mem s' q') = join (queue_mem s q')"
  using assms
  by (auto simp: vkr_device_alloc_queue_sync_def malloc_sync_def Let_def split: if_splits)

lemma submit_fence_creates:
  assumes "step (Submit_fence q res) s = Some s'"
  shows "creates (trace s') = creates (trace s)"
    and "join (queue_mem s' q') = join (queue_mem s q')"
  using assms
  by (auto simp: submit_fence_def Let_def split: if_splits caller_pc.splits)

lemma thread_wake_creates:
  assumes "step (Thread_wake q) s = Some s'"
  shows "creates (trace s') = creates (trace s)"
    and "join (queue_mem s' q') = join (queue_mem s q')"
  using assms
  by (auto simp: thread_wake_def split: if_splits)

lemma thread_wait_creates:
  assumes "step (Thread_wait q w) s = Some s'"
  shows "creates (trace s') = creates (trace s)"
  using assms
  by (auto simp: thread_wait_def Let_def split: if_splits thread_pc.splits)


lemma waits_run:
  assumes "run (map (Thread_wait q) ws) s = Some s1"
    and "thr s q = Waiting a" "pend s q = [a]" "\<not> join (queue_mem s q)"
  shows "creates (trace s1) = creates (trace s) \<and> sync_count s1 = sync_count s
       \<and> callers s1 = callers s \<and> \<not> join (queue_mem s1 q)
       \<and> ((pend s1 q = [a] \<and> thr s1 q = Waiting a \<and> free_syncs s1 = free_syncs s)
          \<or> (pend s1 q = [] \<and> thr s1 q = Blocked \<and> free_syncs s1 = free_syncs s @ [a]))"
  using assms
proof (induction ws arbitrary: s)
  case Nil then show ?case by simp
next
  case (Cons w ws)
  from Cons.prems(1) obtain s2 where st: "step (Thread_wait q w) s = Some s2"
    and r: "run (map (Thread_wait q) ws) s2 = Some s1"
    by (auto split: option.splits)
  from thread_wait_effect [OF st] Cons.prems(2) have
    c: "callers s2 = callers s" and n: "sync_count s2 = sync_count s"
    and th: "thr s2 = (thr s)(q := next_pc s2 q)"
    and j: "\<not> join (queue_mem s2 q)"
    and eff: "if \<not> device_lost (syncs s a) \<and> w = VK_TIMEOUT
           then free_syncs s2 = free_syncs s \<and> pend s2 = pend s
           else free_syncs s2 = free_syncs s @ [a]
                \<and> pend s2 = (pend s)(q := remove1 a (pend s q))"
    using Cons.prems(4) by auto
  note cr = thread_wait_creates [OF st]
  show ?case
  proof (cases "\<not> device_lost (syncs s a) \<and> w = VK_TIMEOUT")
    case True
    with eff have f: "free_syncs s2 = free_syncs s" and p: "pend s2 = pend s" by simp_all
    have t2: "thr s2 q = Waiting a" using th p j Cons.prems(3) by (simp add: next_pc_def)
    from Cons.IH [OF r t2 _ j] p Cons.prems(3) f c n cr show ?thesis by simp
  next
    case False
    with eff have f: "free_syncs s2 = free_syncs s @ [a]"
      and p: "pend s2 q = []" using Cons.prems(3) by simp_all
    have t2: "thr s2 q = Blocked" using th p j by (simp add: next_pc_def)
    have "ws = []"
    proof (cases ws)
      case (Cons w' ws')
      with r t2 show ?thesis
        by (simp add: thread_wait_def thr_def split: option.splits)
    qed simp
    with r f p t2 c n cr j show ?thesis by simp
  qed
qed

lemma one_cycle:
  assumes "quiet q s" "free_syncs s = [] \<or> free_syncs s = [a]"
    and "run (cycle_events q c) s = Some s1" "pend s1 q = []"
  shows "quiet q s1
       \<and> free_syncs s1 = [if free_syncs s = [] then sync_count s else a]
       \<and> creates (trace s1) = creates (trace s) + (if free_syncs s = [] then 1 else 0)
       \<and> sync_count s1 = sync_count s + (if free_syncs s = [] then 1 else 0)"
proof -
  from assms(1) have q0: "pend s q = []" "thr s q = Blocked" "callers s q = Idle"
    "\<not> join (queue_mem s q)" by (simp_all add: quiet_def)
  from assms(3) obtain sa sb sc where
    a: "step (Submit_acquire q (c_flags c) (c_ring c) (c_fence_id c) (c_malloc_ok c) (c_create c)) s
          = Some sa"
    and b: "step (Submit_fence q (c_submit c)) sa = Some sb"
    and w: "step (Thread_wake q) sb = Some sc"
    and ws: "run (map (Thread_wait q) (c_waits c)) sc = Some s1"
    by (auto simp: cycle_events_def run_append split: option.splits)
  note ea = acquire_effect [OF a] and ca = acquire_creates [OF a]
  from submit_fence_effect [OF b] obtain x where
    acq: "callers sa q = Acquired x" and cb: "callers sb = (callers sa)(q := Idle)"
    and tb: "thr sb = thr sa" and nb: "sync_count sb = sync_count sa"
    and eb: "if c_submit c = VK_SUCCESS \<or> c_submit c = VK_ERROR_DEVICE_LOST
           then free_syncs sb = free_syncs sa \<and> pend sb = (pend sa)(q := pend sa q @ [x])
                \<and> device_lost (syncs sb x)
                    = (c_submit c = VK_ERROR_DEVICE_LOST \<or> device_lost (syncs sa x))
           else free_syncs sb = free_syncs sa @ [x] \<and> pend sb = pend sa"
    by blast
  note crb = submit_fence_creates [OF b]
  note ew = thread_wake_effect [OF w] and cw = thread_wake_creates [OF w]
  have jb: "\<not> join (queue_mem sb q)" using q0 ca(2) crb(2) by simp
  have pa: "pend sa q = []" using ea q0 by simp
  have acc: "c_submit c = VK_SUCCESS \<or> c_submit c = VK_ERROR_DEVICE_LOST"
  proof (rule ccontr)
    assume "\<not> ?thesis"
    with eb pa have "pend sb q = []" by simp
    with ew jb show False by simp
  qed
  with eb pa have fb: "free_syncs sb = free_syncs sa" and pb: "pend sb q = [x]" by simp_all
  have tc: "thr sc q = Waiting x" using ew pb jb by (simp add: next_pc_def)
  have pc: "pend sc q = [x]" "free_syncs sc = free_syncs sa" "\<not> join (queue_mem sc q)"
    "callers sc q = Idle" "sync_count sc = sync_count sa"
    "creates (trace sc) = creates (trace sa)"
    using ew pb fb jb cw cb nb crb by simp_all
  from waits_run [OF ws tc pc(1) pc(3)] assms(4) pc
  have fin: "creates (trace s1) = creates (trace sa)" "sync_count s1 = sync_count sa"
    "callers s1 q = Idle" "\<not> join (queue_mem s1 q)" "thr s1 q = Blocked"
    "free_syncs s1 = free_syncs sa @ [x]"
    by auto
  have held: "(free_syncs s = [] \<longrightarrow> x = sync_count s \<and> free_syncs sa = []
                 \<and> sync_count sa = Suc (sync_count s) \<and> c_malloc_ok c)
            \<and> (free_syncs s = [a] \<longrightarrow> x = a \<and> free_syncs sa = []
                 \<and> sync_count sa = sync_count s)"
    using ea acq q0 ca(1) a
    by (auto simp: vkr_device_alloc_queue_sync_def malloc_sync_def Let_def split: if_splits)
  show ?thesis
    using fin held ca(1) assms(2,4) by (auto simp: quiet_def)
qed


lemma cycles_reuse:
  assumes "quiet q s" "free_syncs s = [a]" "run_cycles q cs s = Some s'"
  shows "quiet q s' \<and> free_syncs s' = [a] \<and> creates (trace s') = creates (trace s)
       \<and> sync_count s' = sync_count s"
  using assms
proof (induction cs arbitrary: s)
  case Nil then show ?case by simp
next
  case (Cons c cs)
  from Cons.prems(3) obtain s1 where r: "run (cycle_events q c) s = Some s1"
    and p: "pend s1 q = []" and rest: "run_cycles q cs s1 = Some s'"
    by (auto split: option.splits if_splits)
  from one_cycle [OF Cons.prems(1) _ r p, of a] Cons.prems(2)
  have 1: "quiet q s1" "free_syncs s1 = [a]" "creates (trace s1) = creates (trace s)"
    "sync_count s1 = sync_count s" by simp_all
  from Cons.IH [OF 1(1,2) rest] 1 show ?case by simp
qed

lemma steady_cycle_runs:
  assumes "quiet q s"
  shows "\<exists>s1. run (cycle_events q (steady_cycle t)) s = Some s1 \<and> pend s1 q = []"
proof -
  from assms have q0: "pend s q = []" "thr s q = Blocked" "callers s q = Idle"
    "\<not> join (queue_mem s q)" by (simp_all add: quiet_def)
  obtain o1 s1 where al: "vkr_device_alloc_queue_sync 0 0 t True (VK_SUCCESS, 0) s = (o1, s1)"
    by (cases "vkr_device_alloc_queue_sync 0 0 t True (VK_SUCCESS, 0) s")
  then obtain x where x: "o1 = Some x"
    by (cases o1)
       (auto simp: vkr_device_alloc_queue_sync_def malloc_sync_def Let_def split: if_splits)
  note k = alloc_some [OF al [unfolded x]]
  define sa where "sa = set_caller q (Acquired x) s1"
  have a: "step (Submit_acquire q 0 0 t True (VK_SUCCESS, 0)) s = Some sa"
    using q0 al x by (simp add: sa_def)
  define sb where "sb = set_caller q Idle (snd (submit_fence q x VK_SUCCESS sa))"
  have b: "step (Submit_fence q VK_SUCCESS) sa = Some sb"
    by (simp add: sa_def sb_def)
  from submit_fence_effect [OF b] have
    pb: "pend sb q = pend sa q @ [x]" and tb: "thr sb = thr sa"
    by (auto simp: sa_def)
  have pa: "pend sa q = []" "thr sa q = Blocked" using k q0 by (simp_all add: sa_def)
  have jb: "\<not> join (queue_mem sb q)"
    using acquire_creates(2) [OF a, of q] submit_fence_creates(2) [OF b, of q] q0 by simp
  define sc where "sc = thread_loop_head q (emit [Mtx_lock (Queue_mutex q)] sb)"
  have w: "step (Thread_wake q) sb = Some sc"
    using pb pa tb by (simp add: thread_wake_def thr_def [symmetric] sc_def)
  from thread_wake_effect [OF w] pb pa jb have
    tc: "thr sc q = Waiting x" and pc: "pend sc q = [x]"
    by (simp_all add: next_pc_def)
  have "\<exists>sd. thread_wait q VK_SUCCESS sc = Some sd"
    using tc by (simp add: thread_wait_def thr_def Let_def)
  then obtain sd where d: "step (Thread_wait q VK_SUCCESS) sc = Some sd" by auto
  from thread_wait_effect [OF d] tc pc have pd: "pend sd q = []" by auto
  have "run (cycle_events q (steady_cycle t)) s = Some sd"
    using a b w d by (simp add: cycle_events_def steady_cycle_def)
  with pd show ?thesis by blast
qed

section \<open>Order of retirement on one queue\<close>

text \<open>
  C1. On one queue the \<^verbatim>\<open>retire_fence\<close> callback is made once for each object that
  \<^verbatim>\<open>vkr_queue_sync_submit\<close> has put on the list, with the ring index and fence id of the
  submissions in their order, whatever the fence waits return and however the threads
  interleave: the callbacks already made by the queue, followed by the entries still on its
  list, are the entries at the start followed by the accepted submissions in order; a
  submission is appended at the tail, and the thread waits on and retires the first entry.
\<close>

theorem sync_retire_fifo:
  assumes "inv s0" "callers s0 q = Idle" "run es s0 = Some s"
  shows "retired_by q (trace s) @ outstanding q s
           = retired_by q (trace s0) @ outstanding q s0 @ submitted q None es
       \<and> (\<forall>a res s'. callers s q = Acquired a \<and> accepted res
              \<and> step (Submit_fence q res) s = Some s' \<longrightarrow> pend s' q = pend s q @ [a])
       \<and> (\<forall>a w s'. thr s q = Waiting a \<and> step (Thread_wait q w) s = Some s' \<longrightarrow>
              pend s q \<noteq> [] \<and> hd (pend s q) = a
              \<and> (if \<not> device_lost (syncs s a) \<and> w = VK_TIMEOUT
                  then pend s' q = pend s q \<and> retired_by q (trace s') = retired_by q (trace s)
                  else pend s' q = tl (pend s q)
                       \<and> retired_by q (trace s') = retired_by q (trace s) @ [sync_key s a]))"
proof (intro conjI allI impI)
  have "held_key q None s0" using assms(2) by (simp add: held_key_def)
  from fifo_run [OF assms(1) this assms(3)]
  show "retired_by q (trace s) @ outstanding q s
           = retired_by q (trace s0) @ outstanding q s0 @ submitted q None es" .
next
  fix a res s'
  assume h: "callers s q = Acquired a \<and> accepted res \<and> step (Submit_fence q res) s = Some s'"
  with submit_fence_effect [of q res s s'] show "pend s' q = pend s q @ [a]"
    by (auto simp: accepted_def)
next
  fix a w s'
  assume h: "thr s q = Waiting a \<and> step (Thread_wait q w) s = Some s'"
  have i: "inv s" using inv_run [OF assms(1,3)] .
  then have ne: "pend s q \<noteq> []" and hd: "hd (pend s q) = a"
    using h by (auto simp: inv_def waiting_ok_def)
  show "pend s q \<noteq> []" by fact
  show "hd (pend s q) = a" by fact
  from ne hd obtain rest where pq: "pend s q = a # rest" by (cases "pend s q") auto
  from h have st: "step (Thread_wait q w) s = Some s'" and wt: "thr s q = Waiting a" by simp_all
  from thread_wait_effect [OF st] wt pq thread_wait_retired [OF st wt, of q]
  show "if \<not> device_lost (syncs s a) \<and> w = VK_TIMEOUT
        then pend s' q = pend s q \<and> retired_by q (trace s') = retired_by q (trace s)
        else pend s' q = tl (pend s q)
             \<and> retired_by q (trace s') = retired_by q (trace s) @ [sync_key s a]"
    by (cases "\<not> device_lost (syncs s a) \<and> w = VK_TIMEOUT") auto
qed

theorem sync_retire_fifo_witness:
  "inv world0 \<and> callers world0 1 = Idle
   \<and> (\<exists>s. run fifo_example world0 = Some s
          \<and> retired_by 1 (trace s) = [(2, 70), (2, 71)] \<and> outstanding 1 s = [])"
proof -
  have i: "inv world0" by (rule inv_world0)
  have c: "callers world0 1 = Idle" by (simp add: world0_def)
  have "\<exists>s. run fifo_example world0 = Some s \<and> outstanding 1 s = []"
    by (simp add: fifo_example_def eval_defs outstanding_def)
  then obtain s where r: "run fifo_example world0 = Some s" and o: "outstanding 1 s = []"
    by blast
  from sync_retire_fifo [OF i c r] o
  have "retired_by 1 (trace s) = [(2, 70), (2, 71)]"
    by (simp add: fifo_example_def outstanding_def accepted_def world0_def queue0_def pend_def)
  with i c r o show ?thesis by blast
qed


section \<open>The pool: acquiring an object\<close>

text \<open>
  C4. \<^verbatim>\<open>vkr_device_alloc_queue_sync\<close>: with a non-empty free list the head is taken and
  its fence is reset, not created again, and no memory is allocated; with an empty free
  list the mutex is released before \<^verbatim>\<open>malloc\<close> and \<^verbatim>\<open>vkCreateFence\<close>; when
  \<^verbatim>\<open>malloc\<close> fails nothing is allocated, and when \<^verbatim>\<open>vkCreateFence\<close> fails the memory
  just allocated is freed again, so that the call returns nothing and every object live
  afterwards was live before; every object returned has the flags, ring index and fence id
  of the call and \<open>device_lost = False\<close>.
\<close>

theorem alloc_queue_sync_contract:
  assumes "vkr_device_alloc_queue_sync fl r t malloc_ok create s = (res, s')"
  shows "(free_syncs s \<noteq> [] \<longrightarrow>
            res = Some (hd (free_syncs s)) \<and> free_syncs s' = tl (free_syncs s)
            \<and> fence (syncs s' (hd (free_syncs s))) = fence (syncs s (hd (free_syncs s)))
            \<and> sync_count s' = sync_count s \<and> sync_live s' = sync_live s
            \<and> trace s' = trace s @ [Mtx_lock Free_sync_mutex, Mtx_unlock Free_sync_mutex,
                                     ResetFences (fence (syncs s (hd (free_syncs s))))])
       \<and> (free_syncs s = [] \<and> malloc_ok \<and> fst create = VK_SUCCESS \<longrightarrow>
            res = Some (sync_count s) \<and> sync_count s' = Suc (sync_count s)
            \<and> sync_live s' = (sync_live s)(sync_count s := True)
            \<and> fence (syncs s' (sync_count s)) = snd create \<and> free_syncs s' = []
            \<and> trace s' = trace s @ [Mtx_lock Free_sync_mutex, Mtx_unlock Free_sync_mutex,
                                     CreateFence (KHR_external_fence_fd s)])
       \<and> (free_syncs s = [] \<and> \<not> malloc_ok \<longrightarrow>
            res = None \<and> sync_live s' = sync_live s \<and> sync_count s' = sync_count s
            \<and> trace s' = trace s @ [Mtx_lock Free_sync_mutex, Mtx_unlock Free_sync_mutex])
       \<and> (free_syncs s = [] \<and> malloc_ok \<and> fst create \<noteq> VK_SUCCESS \<longrightarrow>
            res = None \<and> sync_live s' = (sync_live s)(sync_count s := False)
            \<and> \<not> sync_live s' (sync_count s) \<and> sync_count s' = Suc (sync_count s)
            \<and> trace s' = trace s @ [Mtx_lock Free_sync_mutex, Mtx_unlock Free_sync_mutex,
                                     CreateFence (KHR_external_fence_fd s)])
       \<and> (res = None \<longrightarrow>
            (\<forall>a. sync_live s' a \<longrightarrow> sync_live s a) \<and> syncs s' = syncs s
            \<and> free_syncs s' = free_syncs s \<and> queue_mem s' = queue_mem s)
       \<and> (\<forall>sync. res = Some sync \<longrightarrow>
            flags (syncs s' sync) = fl \<and> ring_idx (syncs s' sync) = r
            \<and> fence_id (syncs s' sync) = t \<and> \<not> device_lost (syncs s' sync)
            \<and> (\<forall>a. a \<noteq> sync \<longrightarrow> syncs s' a = syncs s a))"
proof (cases "free_syncs s = []")
  case False
  with assms show ?thesis
    by (auto simp: vkr_device_alloc_queue_sync_def sync_init_def emit_def Let_def)
next
  case True
  show ?thesis
  proof (cases malloc_ok)
    case m: False
    with True assms show ?thesis
      by (auto simp: vkr_device_alloc_queue_sync_def malloc_sync_def emit_def Let_def)
  next
    case m: True
    show ?thesis
    proof (cases "fst create = VK_SUCCESS")
      case True
      with m \<open>free_syncs s = []\<close> assms show ?thesis
        by (auto simp: vkr_device_alloc_queue_sync_def malloc_sync_def sync_init_def emit_def
              Let_def)
    next
      case False
      with m \<open>free_syncs s = []\<close> assms show ?thesis
        by (auto simp: vkr_device_alloc_queue_sync_def malloc_sync_def free_sync_def emit_def
              Let_def split: if_splits)
    qed
  qed
qed

theorem alloc_queue_sync_contract_witness:
  "fst (vkr_device_alloc_queue_sync 5 2 77 True (VK_SUCCESS, 9) world0) = Some 0
   \<and> fence_id (syncs (snd (vkr_device_alloc_queue_sync 5 2 77 True (VK_SUCCESS, 9) world0)) 0) = 77
   \<and> sync_live (snd (vkr_device_alloc_queue_sync 5 2 77 True (VK_SUCCESS, 9) world0)) 0
   \<and> free_syncs world0 = [] \<and> fst (VK_OTHER (- 1), 0 :: nat) \<noteq> VK_SUCCESS
   \<and> fst (vkr_device_alloc_queue_sync 5 2 77 True (VK_OTHER (- 1), 0) world0) = None
   \<and> sync_live (snd (vkr_device_alloc_queue_sync 5 2 77 True (VK_OTHER (- 1), 0) world0))
        = sync_live world0
   \<and> fst (vkr_device_alloc_queue_sync 5 2 77 False (VK_SUCCESS, 9) world0) = None"
proof -
  have e: "free_syncs world0 = []" "sync_count world0 = 0" "sync_live world0 = (\<lambda>_. False)"
    by (simp_all add: world0_def)
  from alloc_queue_sync_contract [of 5 2 77 True "(VK_SUCCESS, 9)" world0
       "fst (vkr_device_alloc_queue_sync 5 2 77 True (VK_SUCCESS, 9) world0)"
       "snd (vkr_device_alloc_queue_sync 5 2 77 True (VK_SUCCESS, 9) world0)"] e
  have A: "fst (vkr_device_alloc_queue_sync 5 2 77 True (VK_SUCCESS, 9) world0) = Some 0"
    "fence_id (syncs (snd (vkr_device_alloc_queue_sync 5 2 77 True (VK_SUCCESS, 9) world0)) 0) = 77"
    "sync_live (snd (vkr_device_alloc_queue_sync 5 2 77 True (VK_SUCCESS, 9) world0)) 0"
    by simp_all
  from alloc_queue_sync_contract [of 5 2 77 True "(VK_OTHER (- 1), 0)" world0
       "fst (vkr_device_alloc_queue_sync 5 2 77 True (VK_OTHER (- 1), 0) world0)"
       "snd (vkr_device_alloc_queue_sync 5 2 77 True (VK_OTHER (- 1), 0) world0)"] e
  have B: "fst (vkr_device_alloc_queue_sync 5 2 77 True (VK_OTHER (- 1), 0) world0) = None"
    "sync_live (snd (vkr_device_alloc_queue_sync 5 2 77 True (VK_OTHER (- 1), 0) world0))
        = sync_live world0"
    by (simp_all add: fun_eq_iff)
  from alloc_queue_sync_contract [of 5 2 77 False "(VK_SUCCESS, 9)" world0
       "fst (vkr_device_alloc_queue_sync 5 2 77 False (VK_SUCCESS, 9) world0)"
       "snd (vkr_device_alloc_queue_sync 5 2 77 False (VK_SUCCESS, 9) world0)"] e
  have C: "fst (vkr_device_alloc_queue_sync 5 2 77 False (VK_SUCCESS, 9) world0) = None"
    by simp
  from A B C e show ?thesis by simp
qed

text \<open>
  C9. From a device with an empty free list and a queue at rest, any number of cycles of one
  queue, each started after the object of the one before is back in the pool, makes one
  \<^verbatim>\<open>vkCreateFence\<close> call and one allocation in all: the first cycle creates the object and
  every later one takes it from the free list, where it is again at the end. Runs of that
  shape exist for every number of cycles.
\<close>

theorem pool_reuse:
  assumes "quiet q s0" "free_syncs s0 = []"
  shows "(\<forall>cs s. cs \<noteq> [] \<and> run_cycles q cs s0 = Some s \<longrightarrow>
            creates (trace s) = Suc (creates (trace s0))
            \<and> sync_count s = Suc (sync_count s0)
            \<and> free_syncs s = [sync_count s0] \<and> quiet q s)
       \<and> (\<forall>ts. \<exists>s. run_cycles q (map steady_cycle ts) s0 = Some s)"
proof -
  have A: "creates (trace s) = Suc (creates (trace s0))
            \<and> sync_count s = Suc (sync_count s0)
            \<and> free_syncs s = [sync_count s0] \<and> quiet q s"
    if h: "cs \<noteq> []" "run_cycles q cs s0 = Some s" for cs s
  proof -
    from h obtain c cs' where cs: "cs = c # cs'" by (cases cs) auto
    with h obtain s1 where r: "run (cycle_events q c) s0 = Some s1"
      and p: "pend s1 q = []" and rest: "run_cycles q cs' s1 = Some s"
      by (auto split: option.splits if_splits)
    from one_cycle [OF assms(1) _ r p] assms(2)
    have 1: "quiet q s1" "free_syncs s1 = [sync_count s0]"
      "creates (trace s1) = Suc (creates (trace s0))" "sync_count s1 = Suc (sync_count s0)"
      by simp_all
    from cycles_reuse [OF 1(1,2) rest] 1 show ?thesis by simp
  qed
  have B: "\<exists>s'. run_cycles q (map steady_cycle ts) s = Some s'"
    if "quiet q s" "free_syncs s = [] \<or> free_syncs s = [a]" for ts s a
    using that
  proof (induction ts arbitrary: s a)
    case Nil then show ?case by simp
  next
    case (Cons t ts)
    from steady_cycle_runs [OF Cons.prems(1), of t] obtain s1 where
      r: "run (cycle_events q (steady_cycle t)) s = Some s1" and p: "pend s1 q = []" by blast
    from one_cycle [OF Cons.prems(1,2) r p]
    have 1: "quiet q s1" "free_syncs s1 = [if free_syncs s = [] then sync_count s else a]"
      by simp_all
    from Cons.IH [OF 1(1), of "if free_syncs s = [] then sync_count s else a"] 1(2)
    obtain s' where "run_cycles q (map steady_cycle ts) s1 = Some s'" by auto
    with r p show ?case by simp
  qed
  have B0: "\<exists>s'. run_cycles q (map steady_cycle ts) s0 = Some s'" for ts
    using B [OF assms(1), of undefined ts] assms(2) by simp
  from A B0 show ?thesis by blast
qed

theorem pool_reuse_witness:
  "quiet 1 world0 \<and> free_syncs world0 = [] \<and> reuse_cycles \<noteq> []
   \<and> (\<exists>s. run_cycles 1 reuse_cycles world0 = Some s
          \<and> creates (trace s) = 1 \<and> sync_count s = 1 \<and> free_syncs s = [0])"
proof -
  have q: "quiet 1 world0" by (simp add: quiet_def world0_def queue0_def pend_def thr_def)
  have f: "free_syncs world0 = []" "creates (trace world0) = 0" "sync_count world0 = 0"
    by (simp_all add: world0_def)
  have "\<exists>s. run_cycles 1 reuse_cycles world0 = Some s"
    by (simp add: reuse_cycles_def cycle_events_def eval_defs)
  then obtain s where r: "run_cycles 1 reuse_cycles world0 = Some s" by blast
  have ne: "reuse_cycles \<noteq> []" by (simp add: reuse_cycles_def)
  from pool_reuse [OF q f(1)] ne r f
  have "creates (trace s) = 1 \<and> sync_count s = 1 \<and> free_syncs s = [0]"
    by (metis One_nat_def)
  with q f ne r show ?thesis by blast
qed


section \<open>Device loss\<close>

text \<open>
  C2. When the fence-only \<^verbatim>\<open>vkQueueSubmit\<close> returns \<^verbatim>\<open>VK_ERROR_DEVICE_LOST\<close>,
  \<^verbatim>\<open>vkr_queue_sync_submit\<close> returns true with the object marked \<open>device_lost\<close> at the
  tail of the queue's list. When the thread later holds that object, still on the list
  since, its next step makes no \<^verbatim>\<open>vkWaitForFences\<close> call whatever the driver would
  answer: it takes the object off the list, calls \<^verbatim>\<open>retire_fence\<close> with the ring index
  and fence id of the submission and puts the object at the tail of the free list.
\<close>

theorem device_lost_short_circuit:
  assumes "inv s" "callers s q = Idle"
    and "vkr_device_alloc_queue_sync fl r t m c s = (Some a, s1)"
    and "vkr_queue_sync_submit q fl r t m c VK_ERROR_DEVICE_LOST s = (ok, s2)"
    and "run_keeping (in_flight q a) es s2 = Some s3"
    and "thr s3 q = Waiting a"
  shows "ok \<and> device_lost (syncs s2 a) \<and> pend s2 q = pend s q @ [a]
       \<and> (\<forall>w. \<exists>s4. step (Thread_wait q w) s3 = Some s4
            \<and> trace s4 = trace s3 @ [Mtx_lock (Queue_mutex q), Retire_fence q r t,
                 Mtx_lock Free_sync_mutex, Mtx_unlock Free_sync_mutex,
                 Mtx_unlock (Queue_mutex q)]
            \<and> pend s4 q = tl (pend s3 q) \<and> a \<notin> set (pend s4 q)
            \<and> free_syncs s4 = free_syncs s3 @ [a])"
proof -
  note d = submit_device_lost [OF assms(3,4)]
  have i2: "inv s2" using inv_submit [OF assms(1,2), of fl r t m c VK_ERROR_DEVICE_LOST] assms(4)
    by simp
  have f2: "in_flight q a s2" using d assms(2) by (simp add: in_flight_def)
  from sync_stable_run [OF i2 f2 assms(5)]
  have sy: "syncs s3 a = syncs s2 a" and i3: "inv s3" by simp_all
  from i3 assms(6) have lv: "callers s3 q \<noteq> Destroyed" and ne: "pend s3 q \<noteq> []"
    and hd: "hd (pend s3 q) = a" by (auto simp: inv_def waiting_ok_def)
  then obtain rest where pq: "pend s3 q = a # rest" by (cases "pend s3 q") auto
  from i3 lv have "distinct (pend s3 q)"
    using own_okD(1) [of "owns s3" "sync_count s3" "Registry q"]
    by (simp add: inv_def owns_def)
  with pq have nin: "a \<notin> set rest" by simp
  have dl: "device_lost (syncs s3 a)" "ring_idx (syncs s3 a) = r" "fence_id (syncs s3 a) = t"
    using sy d by simp_all
  have "\<And>w. \<exists>s4. step (Thread_wait q w) s3 = Some s4
            \<and> trace s4 = trace s3 @ [Mtx_lock (Queue_mutex q), Retire_fence q r t,
                 Mtx_lock Free_sync_mutex, Mtx_unlock Free_sync_mutex,
                 Mtx_unlock (Queue_mutex q)]
            \<and> pend s4 q = tl (pend s3 q) \<and> a \<notin> set (pend s4 q)
            \<and> free_syncs s4 = free_syncs s3 @ [a]"
    using dl pq nin by (simp add: thread_wait_lost [OF assms(6) dl(1)])
  with d show ?thesis by simp
qed


theorem device_lost_short_circuit_witness:
  "inv world0 \<and> callers world0 1 = Idle
   \<and> fst (vkr_device_alloc_queue_sync 0 2 70 True (VK_SUCCESS, 5) world0) = Some 0
   \<and> fst (vkr_queue_sync_submit 1 0 2 70 True (VK_SUCCESS, 5) VK_ERROR_DEVICE_LOST world0)
   \<and> (\<exists>s3. run_keeping (in_flight 1 0) [Thread_wake 1]
               (snd (vkr_queue_sync_submit 1 0 2 70 True (VK_SUCCESS, 5)
                       VK_ERROR_DEVICE_LOST world0)) = Some s3
          \<and> thr s3 1 = Waiting 0
          \<and> (\<exists>s4. step (Thread_wait 1 VK_TIMEOUT) s3 = Some s4
                 \<and> trace s4 = trace s3 @ [Mtx_lock (Queue_mutex 1), Retire_fence 1 2 70,
                      Mtx_lock Free_sync_mutex, Mtx_unlock Free_sync_mutex,
                      Mtx_unlock (Queue_mutex 1)]
                 \<and> free_syncs s4 = free_syncs s3 @ [0]))"
proof -
  define s1 where "s1 = snd (vkr_device_alloc_queue_sync 0 2 70 True (VK_SUCCESS, 5) world0)"
  have f: "fst (vkr_device_alloc_queue_sync 0 2 70 True (VK_SUCCESS, 5) world0) = Some 0"
    by (simp add: vkr_device_alloc_queue_sync_def malloc_sync_def Let_def world0_def emit_def)
  then have al: "vkr_device_alloc_queue_sync 0 2 70 True (VK_SUCCESS, 5) world0 = (Some 0, s1)"
    by (simp add: s1_def prod_eq_iff)
  obtain ok s2 where sub:
    "vkr_queue_sync_submit 1 0 2 70 True (VK_SUCCESS, 5) VK_ERROR_DEVICE_LOST world0 = (ok, s2)"
    by (cases "vkr_queue_sync_submit 1 0 2 70 True (VK_SUCCESS, 5) VK_ERROR_DEVICE_LOST world0")
  have i: "inv world0" by (rule inv_world0)
  have c: "callers world0 1 = Idle" by (simp add: world0_def)
  have "\<exists>s3. run_keeping (in_flight 1 0) [Thread_wake 1]
               (snd (vkr_queue_sync_submit 1 0 2 70 True (VK_SUCCESS, 5)
                       VK_ERROR_DEVICE_LOST world0)) = Some s3 \<and> thr s3 1 = Waiting 0"
    by (simp add: vkr_queue_sync_submit_def in_flight_def thr_def eval_defs)
  then obtain s3 where r: "run_keeping (in_flight 1 0) [Thread_wake 1] s2 = Some s3"
    and w: "thr s3 1 = Waiting 0" using sub by auto
  from device_lost_short_circuit [OF i c al sub r w] f i c sub r w
  show ?thesis by auto
qed


section \<open>Timeouts of the wait\<close>





section \<open>Submissions that fail\<close>

text \<open>
  C5. When the fence-only \<^verbatim>\<open>vkQueueSubmit\<close> returns anything but success or device
  lost, \<^verbatim>\<open>vkr_queue_sync_submit\<close> returns false with the object at the tail of the free
  list and every queue's list as it was; no callback is made, and none is made for it later:
  whatever runs afterwards, the queue's callbacks and pending entries are those of before
  the call and of the later accepted submissions.
\<close>

theorem submit_failure_releases:
  assumes "vkr_device_alloc_queue_sync fl r t m c s = (Some a, s1)"
    and "res \<noteq> VK_SUCCESS" and "res \<noteq> VK_ERROR_DEVICE_LOST"
    and "vkr_queue_sync_submit q fl r t m c res s = (ok, s')"
  shows "\<not> ok
       \<and> queue_mem s' = queue_mem s
       \<and> free_syncs s' = free_syncs s1 @ [a]
       \<and> free_syncs s' = (if free_syncs s = [] then [a] else tl (free_syncs s) @ [a])
       \<and> sync_count s' = sync_count s1
       \<and> (\<forall>q'. retired_by q' (trace s') = retired_by q' (trace s))
       \<and> (inv s \<and> callers s q = Idle \<longrightarrow>
            (\<forall>es s2. run es s' = Some s2 \<longrightarrow>
               retired_by q (trace s2) @ outstanding q s2
                 = retired_by q (trace s) @ outstanding q s @ submitted q None es))"
proof -
  have s': "s' = vkr_device_free_queue_sync a
                  (emit [QueueSubmit (base_handle (queue_mem s1 q)) (fence (syncs s1 a))] s1)"
    and ok: "\<not> ok"
    using assms by (simp_all add: vkr_queue_sync_submit_def submit_fence_def Let_def)
  have q1: "queue_mem s1 = queue_mem s" and r1: "\<And>q'. retired_by q' (trace s1) = retired_by q' (trace s)"
    using alloc_pend [of fl r t m c s] alloc_retired [of _ fl r t m c s] assms(1) by simp_all
  have f1: "free_syncs s1 = (if free_syncs s = [] then [] else tl (free_syncs s))"
    using assms(1)
    by (auto simp: vkr_device_alloc_queue_sync_def malloc_sync_def Let_def split: if_splits)
  have long: "inv s \<and> callers s q = Idle \<longrightarrow>
            (\<forall>es s2. run es s' = Some s2 \<longrightarrow>
               retired_by q (trace s2) @ outstanding q s2
                 = retired_by q (trace s) @ outstanding q s @ submitted q None es)"
  proof (intro impI allI)
    fix es s2 assume h: "inv s \<and> callers s q = Idle" and r: "run es s' = Some s2"
    have "run ([Submit_acquire q fl r t m c, Submit_fence q res] @ es) s = Some s2"
      using submit_as_steps [of s q fl r t m c res] h assms(1,4) r
      by (simp only: run_append) simp
    moreover have "held_key q None s" using h by (simp add: held_key_def)
    ultimately have "retired_by q (trace s2) @ outstanding q s2
        = retired_by q (trace s) @ outstanding q s
          @ submitted q None ([Submit_acquire q fl r t m c, Submit_fence q res] @ es)"
      using fifo_run h by blast
    then show "retired_by q (trace s2) @ outstanding q s2
                 = retired_by q (trace s) @ outstanding q s @ submitted q None es"
      using assms(2,3) by (simp add: accepted_def)
  qed
  show ?thesis
    using ok s' q1 r1 f1 long by simp
qed

theorem submit_failure_releases_witness:
  "fst (vkr_device_alloc_queue_sync 0 2 70 True (VK_SUCCESS, 5) world0) = Some 0
   \<and> VK_OTHER (- 1) \<noteq> VK_SUCCESS \<and> VK_OTHER (- 1) \<noteq> VK_ERROR_DEVICE_LOST
   \<and> inv world0 \<and> callers world0 1 = Idle
   \<and> \<not> fst (vkr_queue_sync_submit 1 0 2 70 True (VK_SUCCESS, 5) (VK_OTHER (- 1)) world0)
   \<and> free_syncs (snd (vkr_queue_sync_submit 1 0 2 70 True (VK_SUCCESS, 5) (VK_OTHER (- 1)) world0)) = [0]
   \<and> pend (snd (vkr_queue_sync_submit 1 0 2 70 True (VK_SUCCESS, 5) (VK_OTHER (- 1)) world0)) 1 = []"
proof -
  define s1 where "s1 = snd (vkr_device_alloc_queue_sync 0 2 70 True (VK_SUCCESS, 5) world0)"
  have f: "fst (vkr_device_alloc_queue_sync 0 2 70 True (VK_SUCCESS, 5) world0) = Some 0"
    by (simp add: vkr_device_alloc_queue_sync_def malloc_sync_def Let_def world0_def emit_def)
  then have al: "vkr_device_alloc_queue_sync 0 2 70 True (VK_SUCCESS, 5) world0 = (Some 0, s1)"
    by (simp add: s1_def prod_eq_iff)
  obtain ok s' where sub:
    "vkr_queue_sync_submit 1 0 2 70 True (VK_SUCCESS, 5) (VK_OTHER (- 1)) world0 = (ok, s')"
    by (cases "vkr_queue_sync_submit 1 0 2 70 True (VK_SUCCESS, 5) (VK_OTHER (- 1)) world0")
  have i: "inv world0" by (rule inv_world0)
  have c: "callers world0 1 = Idle" by (simp add: world0_def)
  have e: "free_syncs world0 = []" "pending_syncs (queue_mem world0 1) = []"
    by (simp_all add: world0_def queue0_def)
  note th = submit_failure_releases [OF al _ _ sub]
  have "\<not> ok" "free_syncs s' = [0]" "queue_mem s' = queue_mem world0"
    using th e by auto
  with f i c e sub show ?thesis by (simp add: pend_def)
qed


section \<open>Destroying a queue\<close>

text \<open>
  What \<^verbatim>\<open>vkr_queue_destroy\<close> does on every queue, with M objects on its list: it sets
  \<^verbatim>\<open>join\<close> under the queue's mutex and signals the condition; the thread has returned
  before the rest runs, and needs one step of its own to return, whatever its wait answers,
  so the call comes back; the entries left on the list are then retired without a call to
  the driver. When the call returns the queue has made the M callbacks of the entries it
  had, in their order, and, no other queue having taken an object meanwhile, the M objects
  are on the free list; the slot of \<^verbatim>\<open>ctx->sync_queues\<close> that the queue's ring index
  names is cleared if that index is not 0, and the queue is freed directly if its id is 0
  and handed to \<^verbatim>\<open>vkr_context_remove_object\<close> otherwise.
\<close>

theorem queue_destroy_drains:
  assumes "inv s0" "callers s0 q = Idle"
    and "run (Destroy_request q # es) s0 = Some s1"
    and "step (Destroy_complete q) s1 = Some s"
    and "\<forall>e\<in>set es. \<not> is_acquire e"
  shows "(\<exists>sr. step (Destroy_request q) s0 = Some sr \<and> run es sr = Some s1
            \<and> trace sr = trace s0 @ [Mtx_lock (Queue_mutex q), Mtx_unlock (Queue_mutex q),
                                      Cnd_signal q])
       \<and> join (queue_mem s1 q) \<and> thr s1 q = Returned \<and> callers s q = Destroyed
       \<and> retired_by q (trace s) = retired_by q (trace s0) @ map (sync_key s0) (pend s0 q)
       \<and> set (pend s0 q) \<subseteq> set (free_syncs s)
       \<and> trace s = trace s1
           @ concat (map (\<lambda>a. [Retire_fence q (ring_idx (syncs s1 a)) (fence_id (syncs s1 a)),
                                Mtx_lock Free_sync_mutex, Mtx_unlock Free_sync_mutex])
                       (pend s1 q))
           @ [if base_id (queue_mem s1 q) \<noteq> 0 then Remove_object q else Free_queue q]
       \<and> sync_queues s = (if 0 < queue_ring_idx (queue_mem s1 q)
                          then (sync_queues s1)[unat (queue_ring_idx (queue_mem s1 q)) := None]
                          else sync_queues s1)
       \<and> queues s = remove1 q (queues s1)
       \<and> (\<forall>w. \<exists>s'. run (Destroy_request q # thread_exit q w s0 @ [Destroy_complete q]) s0
                       = Some s')"
proof -
  from assms(3) obtain sr where sr: "step (Destroy_request q) s0 = Some sr"
    and r: "run es sr = Some s1" by (auto split: option.splits)
  note er = destroy_request_effect [OF sr]
  have jr: "join (queue_mem sr q)" using sr assms(2) by auto
  have j1: "join (queue_mem s1 q)" using join_run [OF r jr] .
  note ec = destroy_complete_effect [OF assms(4)]
  have all: "run ((Destroy_request q # es) @ [Destroy_complete q]) s0 = Some s"
    using assms(3,4) by (simp only: run_append) simp
  have sub: "submitted q None ((Destroy_request q # es) @ [Destroy_complete q]) = []"
  proof -
    have "run (es @ [Destroy_complete q]) sr = Some s"
      using r assms(4) by (simp only: run_append) simp
    from joining_run [OF this, of q None] er show ?thesis by simp
  qed
  have "held_key q None s0" using assms(2) by (simp add: held_key_def)
  from fifo_run [OF assms(1) this all] sub ec assms(2)
  have fifo: "retired_by q (trace s) = retired_by q (trace s0) @ map (sync_key s0) (pend s0 q)"
    by (simp add: outstanding_def)
  have "set (pend s0 q) \<subseteq> set (pend s1 q) \<union> set (free_syncs s1)"
    using kept_run [OF r assms(5), of q] er by auto
  then have inpool: "set (pend s0 q) \<subseteq> set (free_syncs s)" using ec by auto
  have prog: "\<forall>w. \<exists>s'. run (Destroy_request q # thread_exit q w s0 @ [Destroy_complete q]) s0
                       = Some s'"
  proof
    fix w
    have te: "thread_exit q w sr = thread_exit q w s0" using er by (simp add: thread_exit_def)
    from thread_exit_returns [OF jr, of w] obtain s2 where
      s2: "run (thread_exit q w sr) sr = Some s2" "thr s2 q = Returned" "callers s2 = callers sr"
      by blast
    have cj: "callers s2 q = Joining" using s2(3) er by simp
    have tr: "thread (queue_mem s2 q) = Returned" using s2(2) by (simp add: thr_def)
    obtain s' where s': "step (Destroy_complete q) s2 = Some s'"
      using cj tr by simp
    then have 1: "run [Destroy_complete q] s2 = Some s'" by simp
    have 2: "run (thread_exit q w s0 @ [Destroy_complete q]) sr = Some s'"
      using s2(1) 1 te by (simp only: run_append option.case)
    have "run (Destroy_request q # thread_exit q w s0 @ [Destroy_complete q]) s0 = Some s'"
      using sr 2 by (simp only: run.simps option.case)
    then show "\<exists>s'. run (Destroy_request q # thread_exit q w s0 @ [Destroy_complete q]) s0
                   = Some s'" by blast
  qed
  have "trace sr = trace s0 @ [Mtx_lock (Queue_mutex q), Mtx_unlock (Queue_mutex q),
                                Cnd_signal q]"
    using sr by (auto split: if_splits)
  with sr r have req: "\<exists>sr. step (Destroy_request q) s0 = Some sr \<and> run es sr = Some s1
            \<and> trace sr = trace s0 @ [Mtx_lock (Queue_mutex q), Mtx_unlock (Queue_mutex q),
                                      Cnd_signal q]" by blast
  from req j1 ec fifo inpool destroy_complete_fields [OF assms(4)] prog
  show ?thesis by simp
qed

theorem queue_destroy_drains_witness:
  "inv destroy_state \<and> callers destroy_state 1 = Idle \<and> pend destroy_state 1 = [0, 1]
   \<and> retired_by 1 (trace destroy_state) = []
   \<and> (\<exists>s1 s. run [Destroy_request 1, Thread_wait 1 VK_TIMEOUT] destroy_state = Some s1
          \<and> step (Destroy_complete 1) s1 = Some s
          \<and> retired_by 1 (trace s) = [(2, 70), (2, 71)] \<and> {0, 1} \<subseteq> set (free_syncs s)
          \<and> sync_queues s = [None, None, None, None]
          \<and> last (trace s) = Free_queue 1)"
proof -
  have r0: "run [Submit_acquire 1 0 2 70 True (VK_SUCCESS, 5), Submit_fence 1 VK_SUCCESS,
                Submit_acquire 1 0 2 71 True (VK_SUCCESS, 6), Submit_fence 1 VK_SUCCESS,
                Thread_wake 1] world_ring = Some destroy_state"
    by (simp add: destroy_state_def world_ring_def eval_defs)
  have iw: "inv world_ring"
    by (simp add: inv_def own_ok_def owns_def waiting_ok_def world_ring_def world0_def
          queue0_def pend_def thr_def split: owner.splits)
  have i: "inv destroy_state" using inv_run [OF iw r0] .
  have e: "callers destroy_state 1 = Idle" "pend destroy_state 1 = [0, 1]"
    "retired_by 1 (trace destroy_state) = []"
    "sync_key destroy_state 0 = (2, 70)" "sync_key destroy_state 1 = (2, 71)"
    by (simp_all add: destroy_state_def world_ring_def sync_key_def eval_defs)
  have "\<exists>s1 s. run [Destroy_request 1, Thread_wait 1 VK_TIMEOUT] destroy_state = Some s1
          \<and> step (Destroy_complete 1) s1 = Some s
          \<and> queue_ring_idx (queue_mem s1 1) = 2 \<and> base_id (queue_mem s1 1) = 0
          \<and> sync_queues s1 = [None, None, Some 1, None]"
    by (simp add: destroy_state_def world_ring_def eval_defs)
  then obtain s1 s where r: "run [Destroy_request 1, Thread_wait 1 VK_TIMEOUT] destroy_state = Some s1"
    and c: "step (Destroy_complete 1) s1 = Some s"
    and f: "queue_ring_idx (queue_mem s1 1) = 2" "base_id (queue_mem s1 1) = 0"
       "sync_queues s1 = [None, None, Some 1, None]"
    by blast
  have na: "\<forall>e\<in>set [Thread_wait 1 VK_TIMEOUT]. \<not> is_acquire e" by simp
  note th = queue_destroy_drains [OF i e(1) r c na]
  from th have "retired_by 1 (trace s)
      = retired_by 1 (trace destroy_state) @ map (sync_key destroy_state) (pend destroy_state 1)"
    by blast
  then have A: "retired_by 1 (trace s) = [(2, 70), (2, 71)]" using e by simp
  from th have "set (pend destroy_state 1) \<subseteq> set (free_syncs s)" by blast
  then have B: "{0, 1} \<subseteq> set (free_syncs s)" using e by simp
  from th have "sync_queues s = (if 0 < queue_ring_idx (queue_mem s1 1)
                          then (sync_queues s1)[unat (queue_ring_idx (queue_mem s1 1)) := None]
                          else sync_queues s1)" by blast
  then have C: "sync_queues s = [None, None, None, None]" using f by simp
  from th have "trace s = trace s1
           @ concat (map (\<lambda>a. [Retire_fence 1 (ring_idx (syncs s1 a)) (fence_id (syncs s1 a)),
                                Mtx_lock Free_sync_mutex, Mtx_unlock Free_sync_mutex])
                       (pend s1 1))
           @ [if base_id (queue_mem s1 1) \<noteq> 0 then Remove_object 1 else Free_queue 1]"
    by blast
  then have D: "last (trace s) = Free_queue 1" using f by simp
  note A B C D
  with i e r c show ?thesis by blast
qed


text \<open>
  C3 fails on a queue that was bound to two ring indices. Both \<^verbatim>\<open>vkGetDeviceQueue2\<close>
  commands are accepted, since the handler looks only at the slot asked for; the second
  overwrites the queue's \<^verbatim>\<open>ring_idx\<close>, and \<^verbatim>\<open>vkr_queue_destroy\<close> clears the slot of
  that index alone: the first slot still holds the queue after it has been destroyed.
\<close>

theorem destroy_leaves_stale_binding:
  "vkr_device_lookup_queue 0 0 0 world_dev = Some 1
   \<and> \<not> decoder_fatal rebound_state
   \<and> sync_queues rebound_state = [None, None, Some 1, Some 1]
   \<and> queue_ring_idx (queue_mem rebound_state 1) = 3
   \<and> (case run [Destroy_request 1, Thread_wake 1, Destroy_complete 1] rebound_state of
         None \<Rightarrow> False
       | Some s \<Rightarrow> callers s 1 = Destroyed \<and> queues s = []
            \<and> last (trace s) = Remove_object 1
            \<and> sync_queues s = [None, None, Some 1, None])"
  by (simp add: rebound_state_def world_dev_def vkr_dispatch_vkGetDeviceQueue2_def
        vkr_device_lookup_queue_def vkr_queue_assign_object_id_def bind_ring_def args_bind_def
        vkr_cs_decoder_set_fatal_def eval_defs)

section \<open>Ring binding and identity\<close>

text \<open>
  C6. A \<^verbatim>\<open>vkGetDeviceQueue2\<close> that carries a ring index: index 0 and an index at or
  beyond the size of \<^verbatim>\<open>ctx->sync_queues\<close> set the decoder's fatal flag and change nothing
  else; so does an index whose slot already holds a queue, and that queue's binding stays;
  only an index in range whose slot is empty sets the queue's \<^verbatim>\<open>ring_idx\<close> and the slot.
\<close>

theorem bind_ring_exclusive:
  assumes "vkr_device_lookup_queue (info_flags args) (queueFamilyIndex args) (queueIndex args) s
             = Some q"
    and "timeline_ringIdx args = Some r"
  shows "(r = 0 \<or> length (sync_queues s) \<le> unat r \<longrightarrow>
            vkr_dispatch_vkGetDeviceQueue2 args valid s = s\<lparr>decoder_fatal := True\<rparr>)
       \<and> (\<forall>q'. r \<noteq> 0 \<and> unat r < length (sync_queues s) \<and> sync_queues s ! unat r = Some q' \<longrightarrow>
            vkr_dispatch_vkGetDeviceQueue2 args valid s = s\<lparr>decoder_fatal := True\<rparr>)
       \<and> (r \<noteq> 0 \<and> unat r < length (sync_queues s) \<and> sync_queues s ! unat r = None \<longrightarrow>
            queue_ring_idx (queue_mem (vkr_dispatch_vkGetDeviceQueue2 args valid s) q) = r
            \<and> sync_queues (vkr_dispatch_vkGetDeviceQueue2 args valid s)
                = (sync_queues s)[unat r := Some q]
            \<and> sync_queues (vkr_dispatch_vkGetDeviceQueue2 args valid s) ! unat r = Some q)
       \<and> (sync_queues (vkr_dispatch_vkGetDeviceQueue2 args valid s) \<noteq> sync_queues s
            \<or> queue_ring_idx (queue_mem (vkr_dispatch_vkGetDeviceQueue2 args valid s) q)
                 \<noteq> queue_ring_idx (queue_mem s q)
          \<longrightarrow> r \<noteq> 0 \<and> unat r < length (sync_queues s) \<and> sync_queues s ! unat r = None)"
  using assms
  by (auto simp: vkr_dispatch_vkGetDeviceQueue2_def assign_ring_proj bind_ring_def
        vkr_cs_decoder_set_fatal_def)

theorem bind_ring_exclusive_witness:
  "vkr_device_lookup_queue 0 0 1 world_id = Some 2
   \<and> vkr_dispatch_vkGetDeviceQueue2 (args_bind 1 0) True world_id
        = world_id\<lparr>decoder_fatal := True\<rparr>
   \<and> vkr_dispatch_vkGetDeviceQueue2 (args_bind 1 4) True world_id
        = world_id\<lparr>decoder_fatal := True\<rparr>
   \<and> sync_queues world_id ! 2 = Some 1
   \<and> vkr_dispatch_vkGetDeviceQueue2 (args_bind 1 2) True world_id
        = world_id\<lparr>decoder_fatal := True\<rparr>
   \<and> sync_queues (vkr_dispatch_vkGetDeviceQueue2 (args_bind 1 3) True world_id)
        = [None, None, Some 1, Some 2]
   \<and> queue_ring_idx (queue_mem (vkr_dispatch_vkGetDeviceQueue2 (args_bind 1 3) True world_id) 2) = 3"
  using bind_ring_exclusive [of "args_bind 1 0" world_id 2 0 True]
    bind_ring_exclusive [of "args_bind 1 4" world_id 2 4 True]
    bind_ring_exclusive [of "args_bind 1 2" world_id 2 2 True]
    bind_ring_exclusive [of "args_bind 1 3" world_id 2 3 True]
  by (simp add: args_bind_def vkr_device_lookup_queue_def world_id_def world0_def queue0_def)


text \<open>
  C7. \<^verbatim>\<open>vkr_queue_assign_object_id\<close>: a queue that has an id keeps it; the same id again
  changes nothing, a different id sets the decoder's fatal flag and nothing else; a queue
  without an id takes the id when the validation accepts it, and is left as it was when the
  validation rejects it.
\<close>

theorem assign_object_id_once:
  "(base_id (queue_mem s q) \<noteq> 0 \<and> ident = base_id (queue_mem s q) \<longrightarrow>
      vkr_queue_assign_object_id q ident valid s = s)
   \<and> (base_id (queue_mem s q) \<noteq> 0 \<and> ident \<noteq> base_id (queue_mem s q) \<longrightarrow>
      vkr_queue_assign_object_id q ident valid s = s\<lparr>decoder_fatal := True\<rparr>)
   \<and> (base_id (queue_mem s q) \<noteq> 0 \<longrightarrow>
      base_id (queue_mem (vkr_queue_assign_object_id q ident valid s) q) = base_id (queue_mem s q))
   \<and> (base_id (queue_mem s q) = 0 \<and> valid \<longrightarrow>
      base_id (queue_mem (vkr_queue_assign_object_id q ident valid s) q) = ident
      \<and> trace (vkr_queue_assign_object_id q ident valid s) = trace s @ [Add_object q ident]
      \<and> decoder_fatal (vkr_queue_assign_object_id q ident valid s) = decoder_fatal s)
   \<and> (base_id (queue_mem s q) = 0 \<and> \<not> valid \<longrightarrow>
      vkr_queue_assign_object_id q ident valid s = s)"
  by (simp add: vkr_queue_assign_object_id_def vkr_cs_decoder_set_fatal_def emit_def)

theorem assign_object_id_once_witness:
  "base_id (queue_mem world_id 1) \<noteq> 0 \<and> 9 \<noteq> base_id (queue_mem world_id 1)
   \<and> vkr_queue_assign_object_id 1 7 True world_id = world_id
   \<and> vkr_queue_assign_object_id 1 9 True world_id = world_id\<lparr>decoder_fatal := True\<rparr>
   \<and> base_id (queue_mem (vkr_queue_assign_object_id 1 9 True world_id) 1) = 7
   \<and> base_id (queue_mem world_id 2) = 0
   \<and> base_id (queue_mem (vkr_queue_assign_object_id 2 9 True world_id) 2) = 9
   \<and> vkr_queue_assign_object_id 2 9 False world_id = world_id"
  using assign_object_id_once [of world_id 1 7 True]
    assign_object_id_once [of world_id 1 9 True]
    assign_object_id_once [of world_id 2 9 True]
    assign_object_id_once [of world_id 2 9 False]
  by (simp add: world_id_def world0_def queue0_def)


text \<open>
  C10. \<^verbatim>\<open>vkr_dispatch_vkQueueWaitIdle\<close> sets the decoder's fatal flag, whatever the
  state, and makes no call: the trace of calls is as before.
\<close>

theorem queue_wait_idle_fatal:
  "decoder_fatal (vkr_dispatch_vkQueueWaitIdle s)
   \<and> trace (vkr_dispatch_vkQueueWaitIdle s) = trace s
   \<and> vkr_dispatch_vkQueueWaitIdle s = s\<lparr>decoder_fatal := True\<rparr>"
  by (simp add: vkr_dispatch_vkQueueWaitIdle_def vkr_cs_decoder_set_fatal_def)

end
